theory Spec2Isabelle
  imports Main
begin

section \<open>Score points and Pareto sets\<close>

text \<open>
  The program (\<^verbatim>\<open>Gaps/Matches/No_traceback/DP/main.c\<close>) fills three tables of
  \<^verbatim>\<open>Pareto_set\<close> cells. A cell is a struct \<^verbatim>\<open>{ VMG *scores; int num; }\<close> and a
  \<^verbatim>\<open>VMG\<close> has the two \<^verbatim>\<open>int\<close> fields \<^verbatim>\<open>matches\<close> and \<^verbatim>\<open>gaps\<close>. A cell is
  represented by its live prefix \<^verbatim>\<open>scores[0 .. num-1]\<close>, so \<^verbatim>\<open>num = 0\<close> is the
  empty list and the print loop of \<^verbatim>\<open>main\<close> walks the list in order. The capacity
  \<^verbatim>\<open>MAX_STATES\<close> of the \<^verbatim>\<open>scores\<close> arrays is not modelled: the functions that
  store into them are not part of the sources.
\<close>

record VMG =
  matches :: int
  gaps :: int

type_synonym Pareto_set = "VMG list"

definition INT_MAX :: int where
  "INT_MAX = 2147483647"

definition MAX_LENGTH :: nat where
  "MAX_LENGTH = 4000"

definition vmg :: "int \<Rightarrow> int \<Rightarrow> VMG" where
  "vmg m g = \<lparr>matches = m, gaps = g\<rparr>"

text \<open>
  Modelled from the spec: the dominance relation of section 3 (the file
  \<^verbatim>\<open>pareto_set.h\<close> and its implementation are not part of the sources): p dominates q
  iff p.matches \<ge> q.matches and p.gaps \<le> q.gaps and one of the two is strict.
\<close>

definition dominates :: "VMG \<Rightarrow> VMG \<Rightarrow> bool" where
  "dominates p q \<longleftrightarrow>
     matches p \<ge> matches q \<and> gaps p \<le> gaps q \<and> (matches p > matches q \<or> gaps p < gaps q)"

text \<open>
  Modelled from the spec: \<^verbatim>\<open>insert(frontier, point)\<close> of section 4.1, absent from the
  sources. The point is added unless an existing member dominates it (or equals it: equal
  points are kept once); the members it dominates are removed first. The new point goes to
  the end of the array.
\<close>

definition insert_point :: "Pareto_set \<Rightarrow> VMG \<Rightarrow> Pareto_set" where
  "insert_point F p =
     (if \<exists>q \<in> set F. dominates q p \<or> q = p then F
      else filter (\<lambda>q. \<not> dominates p q) F @ [p])"

text \<open>
  Modelled from the spec: \<^verbatim>\<open>append_node(&cell, m, g)\<close> is declared in the absent
  \<^verbatim>\<open>pareto_set.h\<close>; the spec's frontier has one way to add a point, insertion, and
  \<^verbatim>\<open>main.c\<close> calls \<^verbatim>\<open>append_node\<close> to seed the base cases.
\<close>

definition append_node :: "Pareto_set \<Rightarrow> int \<Rightarrow> int \<Rightarrow> Pareto_set" where
  "append_node F m g = insert_point F (vmg m g)"

text \<open>
  Modelled from the spec: the two per-point transforms of section 4.1. Gap extension is
  \<open>(m, g) \<mapsto> (m, g + 1)\<close>; diagonal extension adds one match when the two characters are
  equal and nothing otherwise. The spec states both over the integers, and so does the
  model: the gap extension of the point \<open>(0, INT_MAX)\<close> is \<open>(0, INT_MAX + 1)\<close>. What
  the \<^verbatim>\<open>int\<close> arithmetic of the absent implementation does with that point is not
  visible in the sources.
\<close>

definition gap_extension :: "VMG \<Rightarrow> VMG" where
  "gap_extension p = p\<lparr>gaps := gaps p + 1\<rparr>"

definition diagonal_extension :: "bool \<Rightarrow> VMG \<Rightarrow> VMG" where
  "diagonal_extension match p = p\<lparr>matches := matches p + (if match then 1 else 0)\<rparr>"

text \<open>
  Modelled from the spec: \<^verbatim>\<open>mergeTransform\<close> of section 4.1 inserts every transformed
  point of every source into the target. \<^verbatim>\<open>pareto_merge2(&res, A, B)\<close> (absent from the
  sources) is the gap-extension merge of the S and T recurrences, and
  \<^verbatim>\<open>pareto_merge3(&res, S, T, Qd, match)\<close> is the union of S, T and the diagonal
  extension of Qd. Sources are taken in argument order, points in stored order.
\<close>

definition insert_all :: "Pareto_set \<Rightarrow> VMG list \<Rightarrow> Pareto_set" where
  "insert_all res ps = fold (\<lambda>p F. insert_point F p) ps res"

definition pareto_merge2 :: "Pareto_set \<Rightarrow> Pareto_set \<Rightarrow> Pareto_set \<Rightarrow> Pareto_set" where
  "pareto_merge2 res A B = insert_all res (map gap_extension A @ map gap_extension B)"

definition pareto_merge3 ::
  "Pareto_set \<Rightarrow> Pareto_set \<Rightarrow> Pareto_set \<Rightarrow> Pareto_set \<Rightarrow> bool \<Rightarrow> Pareto_set" where
  "pareto_merge3 res Sj Tj Qd match =
     insert_all res (Sj @ Tj @ map (diagonal_extension match) Qd)"

section \<open>The dynamic-programming tables\<close>

text \<open>
  \<^verbatim>\<open>Q\<close> and \<^verbatim>\<open>T\<close> have two rows of \<^verbatim>\<open>N + 1\<close> cells, \<^verbatim>\<open>S\<close> has one row. The globals
  \<^verbatim>\<open>M\<close> and \<^verbatim>\<open>N\<close> are the lengths of the two sequences and are passed as arguments.
\<close>

record tables =
  Q :: "Pareto_set list list"
  T :: "Pareto_set list list"
  S :: "Pareto_set list"

definition upd2 :: "'a list list \<Rightarrow> nat \<Rightarrow> nat \<Rightarrow> 'a \<Rightarrow> 'a list list" where
  "upd2 A r c v = A[r := (A ! r)[c := v]]"

definition alloc_tables :: "nat \<Rightarrow> tables" where
  "alloc_tables N =
     \<lparr>Q = replicate 2 (replicate (N + 1) []),
      T = replicate 2 (replicate (N + 1) []),
      S = replicate (N + 1) []\<rparr>"

definition init_base_col :: "nat \<Rightarrow> tables \<Rightarrow> tables" where
  "init_base_col i st =
     (let st1 = st\<lparr>T := upd2 (T st) 0 i (append_node (T st ! 0 ! i) 0 INT_MAX)\<rparr>
      in st1\<lparr>Q := upd2 (Q st1) 0 i (append_node (Q st1 ! 0 ! i) 0 1)\<rparr>)"

definition init_dynamic_tables :: "nat \<Rightarrow> tables" where
  "init_dynamic_tables N =
     (let st0 = alloc_tables N;
          st1 = st0\<lparr>Q := upd2 (Q st0) 0 0 (append_node (Q st0 ! 0 ! 0) 0 0)\<rparr>;
          st2 = fold init_base_col [1..<Suc N] st1
      in st2\<lparr>S := (S st2)[0 := append_node (S st2 ! 0) 0 INT_MAX]\<rparr>)"

section \<open>The alignment loop\<close>

definition prev_line :: "nat \<Rightarrow> nat" where
  "prev_line i = (if i mod 2 = 0 then 1 else 0)"

definition curr_line :: "nat \<Rightarrow> nat" where
  "curr_line i = i mod 2"

definition seed_row :: "nat \<Rightarrow> tables \<Rightarrow> tables" where
  "seed_row i st =
     st\<lparr>Q := upd2 (Q st) (curr_line i) 0 (append_node (Q st ! curr_line i ! 0) 0 1)\<rparr>"

definition cell_step :: "string \<Rightarrow> string \<Rightarrow> nat \<Rightarrow> nat \<Rightarrow> tables \<Rightarrow> tables" where
  "cell_step seq1 seq2 i j st =
     (let prev = prev_line i; curr = curr_line i;
          match = (seq1 ! (i - 1) = seq2 ! (j - 1));
          st1 = st\<lparr>S := (S st)[j := pareto_merge2 (S st ! j) (S st ! (j - 1))
                                      (Q st ! curr ! (j - 1))]\<rparr>;
          st2 = st1\<lparr>T := upd2 (T st1) curr j
                            (pareto_merge2 (T st1 ! curr ! j) (T st1 ! prev ! j)
                               (Q st1 ! prev ! j))\<rparr>
      in st2\<lparr>Q := upd2 (Q st2) curr j
                     (pareto_merge3 (Q st2 ! curr ! j) (S st2 ! j) (T st2 ! curr ! j)
                        (Q st2 ! prev ! (j - 1)) match)\<rparr>)"

definition reset_prev :: "nat \<Rightarrow> nat \<Rightarrow> tables \<Rightarrow> tables" where
  "reset_prev prev k st =
     (let st1 = st\<lparr>Q := upd2 (Q st) prev k []\<rparr>
      in st1\<lparr>T := upd2 (T st1) prev k []\<rparr>)"

definition reset_S :: "nat \<Rightarrow> tables \<Rightarrow> tables" where
  "reset_S k st = st\<lparr>S := (S st)[k := []]\<rparr>"

definition fill_row :: "string \<Rightarrow> string \<Rightarrow> nat \<Rightarrow> nat \<Rightarrow> tables \<Rightarrow> tables" where
  "fill_row seq1 seq2 i n st = fold (cell_step seq1 seq2 i) [1..<Suc n] (seed_row i st)"

definition align_row :: "string \<Rightarrow> string \<Rightarrow> nat \<Rightarrow> nat \<Rightarrow> tables \<Rightarrow> tables" where
  "align_row seq1 seq2 N i st =
     (let st2 = fill_row seq1 seq2 i N st;
          st3 = fold (reset_prev (prev_line i)) [0..<N + 1] st2
      in fold reset_S [1..<N + 1] st3)"

definition align :: "string \<Rightarrow> string \<Rightarrow> nat \<Rightarrow> nat \<Rightarrow> tables \<Rightarrow> tables" where
  "align seq1 seq2 M N st = fold (align_row seq1 seq2 N) [1..<Suc M] st"

text \<open>
  The cell that the print loop of \<^verbatim>\<open>main\<close> walks: \<^verbatim>\<open>Q[M % 2][N]\<close> after
  \<^verbatim>\<open>init_dynamic_tables\<close> and \<^verbatim>\<open>align\<close>.
\<close>

definition final_frontier :: "string \<Rightarrow> string \<Rightarrow> Pareto_set" where
  "final_frontier seq1 seq2 =
     (let M = length seq1; N = length seq2;
          st = align seq1 seq2 M N (init_dynamic_tables N)
      in Q st ! (M mod 2) ! N)"

text \<open>
  The tables at the moment cell \<open>(i, j)\<close> of row \<open>i \<ge> 1\<close> has just been computed:
  \<open>i - 1\<close> complete iterations of the outer loop, then the seeding of column 0 and the
  first \<open>j\<close> iterations of the inner loop.
\<close>

definition state_at :: "string \<Rightarrow> string \<Rightarrow> nat \<Rightarrow> nat \<Rightarrow> tables" where
  "state_at seq1 seq2 i j =
     fill_row seq1 seq2 i j
       (align seq1 seq2 (i - 1) (length seq2) (init_dynamic_tables (length seq2)))"

section \<open>Reading the sequences and printing the result\<close>

text \<open>
  \<^verbatim>\<open>main\<close> takes the program name and the remaining arguments, so that \<^verbatim>\<open>argc\<close> is
  \<open>1 + length args\<close>. The file system maps a path to \<open>Inr contents\<close>, or to
  \<open>Inl reason\<close> when \<^verbatim>\<open>fopen\<close> fails with \<^verbatim>\<open>strerror(errno) = reason\<close>. An outcome
  is the value given to \<^verbatim>\<open>exit\<close> or returned by \<^verbatim>\<open>main\<close>, the lines written to
  standard output and the lines written to standard error. Writing past the end of
  \<^verbatim>\<open>fasta_header[300]\<close>, \<^verbatim>\<open>line[300]\<close> or \<^verbatim>\<open>seq[MAX_LENGTH]\<close> has no defined
  outcome.
\<close>

datatype error = FormatError | FileOpenError string | BufferOverrun

datatype outcome = Exit int "string list" "string list" | Undefined

definition digit :: "nat \<Rightarrow> char" where
  "digit d = ''0123456789'' ! d"

function show_nat :: "nat \<Rightarrow> string" where
  "show_nat n = (if n < 10 then [digit n] else show_nat (n div 10) @ [digit (n mod 10)])"
  by pat_completeness auto
termination
  by (relation "measure id") auto

definition show_int :: "int \<Rightarrow> string" where
  "show_int k = (if k < 0 then CHR ''-'' # show_nat (nat (- k)) else show_nat (nat k))"

definition print_line :: "VMG \<Rightarrow> string" where
  "print_line p = show_int (matches p) @ '' '' @ show_int (gaps p)"

definition is_space :: "char \<Rightarrow> bool" where
  "is_space c \<longleftrightarrow> c \<in> set [CHR '' '', CHR 0x09, CHR 0x0A, CHR 0x0B, CHR 0x0C, CHR 0x0D]"

text \<open>
  \<^verbatim>\<open>fscanf(f, ">%[^\n]\n", fasta_header) > 0\<close>: the file starts with \<open>>\<close> followed by
  at least one character other than a newline; the directive \<^verbatim>\<open>\n\<close> then skips white
  space. The result is the header text and the unread rest of the file.
\<close>

definition scan_header :: "string \<Rightarrow> (string \<times> string) option" where
  "scan_header cs =
     (case cs of
        [] \<Rightarrow> None
      | c # rest \<Rightarrow>
          if c \<noteq> CHR ''>'' then None
          else let h = takeWhile (\<lambda>c. c \<noteq> CHR 0x0A) rest
               in if h = [] then None
                  else Some (h, dropWhile is_space (dropWhile (\<lambda>c. c \<noteq> CHR 0x0A) rest)))"

text \<open>
  The loop \<^verbatim>\<open>while (fscanf(f, "%s", line) != EOF) strcat(seq, line)\<close>: the words of the
  rest of the file, separated by white space, are read into \<^verbatim>\<open>line\<close> and appended to
  \<^verbatim>\<open>seq\<close> in order. \<^verbatim>\<open>strcat\<close> copies \<^verbatim>\<open>line\<close> as a C string, up to its first NUL
  byte, so \<^verbatim>\<open>seq\<close> never holds a NUL byte and \<^verbatim>\<open>strlen\<close> is its length.
\<close>

fun scan_words :: "string \<Rightarrow> string \<Rightarrow> string list" where
  "scan_words cur [] = (if cur = [] then [] else [cur])"
| "scan_words cur (c # cs) =
     (if is_space c then (if cur = [] then scan_words [] cs else cur # scan_words [] cs)
      else scan_words (cur @ [c]) cs)"

definition c_string :: "string \<Rightarrow> string" where
  "c_string w = takeWhile (\<lambda>c. c \<noteq> CHR 0x00) w"

fun strcat_all :: "string \<Rightarrow> string list \<Rightarrow> error + string" where
  "strcat_all seq [] = Inr seq"
| "strcat_all seq (w # ws) =
     (if 300 \<le> length w \<or> MAX_LENGTH \<le> length seq + length (c_string w)
      then Inl BufferOverrun
      else strcat_all (seq @ c_string w) ws)"

definition read_sequence :: "string \<Rightarrow> string \<Rightarrow> (string \<Rightarrow> string + string) \<Rightarrow> error + string" where
  "read_sequence seq filename fs =
     (case fs filename of
        Inl reason \<Rightarrow> Inl (FileOpenError reason)
      | Inr contents \<Rightarrow>
          (case scan_header contents of
             None \<Rightarrow> Inl FormatError
           | Some (h, rest) \<Rightarrow>
               if 300 \<le> length h then Inl BufferOverrun
               else strcat_all seq (scan_words [] rest)))"

definition report :: "error \<Rightarrow> outcome" where
  "report e =
     (case e of
        FormatError \<Rightarrow> Exit (- 1) [''Sequence file format is not correct!''] []
      | FileOpenError reason \<Rightarrow> Exit (- 1) [] [''Failed to open sequence file: '' @ reason]
      | BufferOverrun \<Rightarrow> Undefined)"

definition main :: "string \<Rightarrow> string list \<Rightarrow> (string \<Rightarrow> string + string) \<Rightarrow> outcome" where
  "main prog args fs =
     (if 1 + length args \<noteq> 3
      then Exit 0 [''Usage: '' @ prog @ '' <seq1_file> <seq2_file>''] []
      else
        case read_sequence [] (args ! 0) fs of
          Inl e \<Rightarrow> report e
        | Inr seq1 \<Rightarrow>
            (case read_sequence [] (args ! 1) fs of
               Inl e \<Rightarrow> report e
             | Inr seq2 \<Rightarrow> Exit 0 (map print_line (final_frontier seq1 seq2)) []))"

section \<open>The full tables behind the rolling rows\<close>

text \<open>
  The header comment of \<^verbatim>\<open>main.c\<close> describes \<open>Q\<close>, \<open>S\<close> and \<open>T\<close> as tables with
  \<open>(M + 1) * (N + 1)\<close> entries, of which the program keeps two rows (one row of \<open>S\<close>).
  \<open>Q_cell\<close>, \<open>S_cell\<close> and \<open>T_cell\<close> are the entries of the full tables, as the calls in
  \<^verbatim>\<open>init_dynamic_tables\<close> and \<^verbatim>\<open>align\<close> compute them into empty cells; the lemmas below
  show that the rolling rows hold exactly these values.
\<close>

fun Q_cell :: "string \<Rightarrow> string \<Rightarrow> nat \<Rightarrow> nat \<Rightarrow> Pareto_set"
  and S_cell :: "string \<Rightarrow> string \<Rightarrow> nat \<Rightarrow> nat \<Rightarrow> Pareto_set"
  and T_cell :: "string \<Rightarrow> string \<Rightarrow> nat \<Rightarrow> nat \<Rightarrow> Pareto_set" where
  "Q_cell s1 s2 0 0 = [vmg 0 0]"
| "Q_cell s1 s2 0 (Suc j) = [vmg 0 1]"
| "Q_cell s1 s2 (Suc i) 0 = [vmg 0 1]"
| "Q_cell s1 s2 (Suc i) (Suc j) =
     pareto_merge3 [] (S_cell s1 s2 (Suc i) (Suc j)) (T_cell s1 s2 (Suc i) (Suc j))
       (Q_cell s1 s2 i j) (s1 ! i = s2 ! j)"
| "S_cell s1 s2 i 0 = [vmg 0 INT_MAX]"
| "S_cell s1 s2 i (Suc j) = pareto_merge2 [] (S_cell s1 s2 i j) (Q_cell s1 s2 i j)"
| "T_cell s1 s2 0 j = [vmg 0 INT_MAX]"
| "T_cell s1 s2 (Suc i) j = pareto_merge2 [] (T_cell s1 s2 i j) (Q_cell s1 s2 i j)"

definition shape :: "nat \<Rightarrow> tables \<Rightarrow> bool" where
  "shape N st \<longleftrightarrow>
     length (Q st) = 2 \<and> length (T st) = 2 \<and> length (S st) = Suc N \<and>
     (\<forall>r<2. length (Q st ! r) = Suc N \<and> length (T st ! r) = Suc N)"

text \<open>
  \<open>row_done\<close> describes the tables after \<open>i\<close> iterations of the outer loop of
  \<^verbatim>\<open>align\<close>, \<open>row_partial\<close> the tables inside iteration \<open>i\<close> after \<open>j\<close> columns.
\<close>

definition row_done :: "string \<Rightarrow> string \<Rightarrow> nat \<Rightarrow> nat \<Rightarrow> tables \<Rightarrow> bool" where
  "row_done s1 s2 N i st \<longleftrightarrow>
     shape N st \<and>
     (\<forall>k\<le>N. Q st ! curr_line i ! k = Q_cell s1 s2 i k \<and>
            Q st ! prev_line i ! k = [] \<and>
            T st ! curr_line i ! k = (if k = 0 then [] else T_cell s1 s2 i k) \<and>
            T st ! prev_line i ! k = [] \<and>
            S st ! k = (if k = 0 then [vmg 0 INT_MAX] else []))"

definition row_partial :: "string \<Rightarrow> string \<Rightarrow> nat \<Rightarrow> nat \<Rightarrow> nat \<Rightarrow> tables \<Rightarrow> bool" where
  "row_partial s1 s2 N i j st \<longleftrightarrow>
     shape N st \<and>
     (\<forall>k\<le>N. Q st ! curr_line i ! k = (if k \<le> j then Q_cell s1 s2 i k else []) \<and>
            Q st ! prev_line i ! k = Q_cell s1 s2 (i - 1) k \<and>
            T st ! curr_line i ! k = (if 0 < k \<and> k \<le> j then T_cell s1 s2 i k else []) \<and>
            T st ! prev_line i ! k = (if k = 0 then [] else T_cell s1 s2 (i - 1) k) \<and>
            S st ! k = (if k \<le> j then S_cell s1 s2 i k else []))"

definition nondominated :: "Pareto_set \<Rightarrow> bool" where
  "nondominated F \<longleftrightarrow> (\<forall>p \<in> set F. \<forall>q \<in> set F. p \<noteq> q \<longrightarrow> \<not> dominates p q)"

definition in_bounds :: "nat \<Rightarrow> nat \<Rightarrow> VMG \<Rightarrow> bool" where
  "in_bounds i j p \<longleftrightarrow>
     0 \<le> matches p \<and> matches p \<le> int (min i j) \<and> 0 \<le> gaps p \<and> gaps p \<le> int (i + j)"

section \<open>Global alignments and their exhaustive enumeration\<close>

text \<open>
  A global alignment is a list of columns: a pair of characters \<open>(a, b)\<close>, a gap in the
  first sequence \<open>('-', b)\<close> (the columns that \<open>S\<close> ends with, in the header comment of
  \<^verbatim>\<open>main.c\<close>) or a gap in the second sequence \<open>(a, '-')\<close> (the columns that \<open>T\<close> ends
  with). \<open>alignments\<close> enumerates every alignment of two sequences; \<open>proj1\<close> and \<open>proj2\<close>
  read the two sequences back.
\<close>

datatype column = Both char char | GapS char | GapT char

fun alignments :: "string \<Rightarrow> string \<Rightarrow> column list list" where
  "alignments [] [] = [[]]"
| "alignments [] (b # ys) = map ((#) (GapS b)) (alignments [] ys)"
| "alignments (a # xs) [] = map ((#) (GapT a)) (alignments xs [])"
| "alignments (a # xs) (b # ys) =
     map ((#) (Both a b)) (alignments xs ys) @
     map ((#) (GapS b)) (alignments (a # xs) ys) @
     map ((#) (GapT a)) (alignments xs (b # ys))"

fun proj1 :: "column list \<Rightarrow> string" where
  "proj1 [] = []"
| "proj1 (Both a b # al) = a # proj1 al"
| "proj1 (GapS b # al) = proj1 al"
| "proj1 (GapT a # al) = a # proj1 al"

fun proj2 :: "column list \<Rightarrow> string" where
  "proj2 [] = []"
| "proj2 (Both a b # al) = b # proj2 al"
| "proj2 (GapS b # al) = b # proj2 al"
| "proj2 (GapT a # al) = proj2 al"

fun is_match :: "column \<Rightarrow> bool" where
  "is_match (Both a b) = (a = b)"
| "is_match (GapS b) = False"
| "is_match (GapT a) = False"

fun is_gap :: "column \<Rightarrow> bool" where
  "is_gap (Both a b) = False"
| "is_gap (GapS b) = True"
| "is_gap (GapT a) = True"

text \<open>
  The objective vector of an alignment, in the spec's words (sections 3 and 8, glossary):
  the number of columns with two identical characters, and the number of gap symbols.
  \<open>brute_force\<close> is the spec's ground truth: the scores of all alignments, dominance
  filtered.
\<close>

definition n_matches :: "column list \<Rightarrow> int" where
  "n_matches al = int (length (filter is_match al))"

definition n_gaps :: "column list \<Rightarrow> int" where
  "n_gaps al = int (length (filter is_gap al))"

definition score :: "column list \<Rightarrow> VMG" where
  "score al = vmg (n_matches al) (n_gaps al)"

definition front :: "VMG set \<Rightarrow> VMG set" where
  "front A = {p \<in> A. \<forall>q \<in> A. \<not> dominates q p}"

definition pareto_filter :: "VMG list \<Rightarrow> VMG list" where
  "pareto_filter ps = filter (\<lambda>p. \<not> (\<exists>q \<in> set ps. dominates q p)) ps"

definition brute_force :: "string \<Rightarrow> string \<Rightarrow> VMG list" where
  "brute_force seq1 seq2 = pareto_filter (map score (alignments seq1 seq2))"

text \<open>
  The same enumeration with the gap count that the base cases of \<^verbatim>\<open>main.c\<close> give rise
  to: the cells \<open>Q[0][j]\<close> and \<open>Q[i][0]\<close> are seeded with one gap whatever \<open>j\<close> and \<open>i\<close>
  are, so the run of gap columns of one kind that an alignment starts with counts once;
  every later gap symbol counts once for itself.
\<close>

fun same_kind :: "column \<Rightarrow> column \<Rightarrow> bool" where
  "same_kind (GapS b) (GapS b') = True"
| "same_kind (GapT a) (GapT a') = True"
| "same_kind c c' = False"

definition leading_run :: "column list \<Rightarrow> nat" where
  "leading_run al =
     (case al of
        [] \<Rightarrow> 0
      | c # rest \<Rightarrow> if is_gap c then Suc (length (takeWhile (same_kind c) rest)) else 0)"

definition lead_once_gaps :: "column list \<Rightarrow> int" where
  "lead_once_gaps al = n_gaps al - int (leading_run al - 1)"

definition lead_once_score :: "column list \<Rightarrow> VMG" where
  "lead_once_score al = vmg (n_matches al) (lead_once_gaps al)"

definition brute_force_lead_once :: "string \<Rightarrow> string \<Rightarrow> VMG list" where
  "brute_force_lead_once seq1 seq2 = pareto_filter (map lead_once_score (alignments seq1 seq2))"

text \<open>
  The alignments of two sequences as a set, and the set of their scores.
\<close>

definition Al :: "string \<Rightarrow> string \<Rightarrow> column list set" where
  "Al xs ys = {al. proj1 al = xs \<and> proj2 al = ys}"

definition reach :: "string \<Rightarrow> string \<Rightarrow> VMG set" where
  "reach xs ys = lead_once_score ` Al xs ys"

section \<open>Two-dimensional updates and the loop counters\<close>

lemma length_upd2 [simp]: "length (upd2 A r c v) = length A"
  by (simp add: upd2_def)

lemma length_upd2_row [simp]: "length (upd2 A r c v ! r') = length (A ! r')"
  by (cases "r' = r"; cases "r < length A") (simp_all add: upd2_def list_update_beyond not_less)

lemma nth_upd2:
  "r < length A \<Longrightarrow> c < length (A ! r) \<Longrightarrow>
   upd2 A r c v ! r' ! c' = (if r' = r \<and> c' = c then v else A ! r' ! c')"
  by (cases "r' = r"; cases "c' = c") (simp_all add: upd2_def)

lemma line_simps [simp]:
  "curr_line i < 2" "prev_line i < 2" "curr_line i \<noteq> prev_line i" "prev_line i \<noteq> curr_line i"
  "curr_line (Suc i) = prev_line i" "prev_line (Suc i) = curr_line i"
  "curr_line 0 = 0" "prev_line 0 = Suc 0"
  by (auto simp: curr_line_def prev_line_def) presburger+

lemma shape_alloc: "shape N (alloc_tables N)"
  by (auto simp: shape_def alloc_tables_def less_2_cases_iff)

lemma fill_row_0 [simp]: "fill_row s1 s2 i 0 st = seed_row i st"
  by (simp add: fill_row_def)

lemma fill_row_Suc [simp]:
  "fill_row s1 s2 i (Suc n) st = cell_step s1 s2 i (Suc n) (fill_row s1 s2 i n st)"
  by (simp add: fill_row_def)

lemma align_0 [simp]: "align s1 s2 0 N st = st"
  by (simp add: align_def)

lemma align_Suc [simp]:
  "align s1 s2 (Suc m) N st = align_row s1 s2 N (Suc m) (align s1 s2 m N st)"
  by (simp add: align_def)

lemma shape_seed_row: "shape N st \<Longrightarrow> shape N (seed_row i st)"
  by (simp add: shape_def seed_row_def)

lemma shape_cell_step: "shape N st \<Longrightarrow> shape N (cell_step s1 s2 i j st)"
  by (simp add: shape_def cell_step_def Let_def)

section \<open>The rolling rows hold the full tables\<close>

lemma S_cell_step:
  assumes "shape N st" "j \<le> N"
  shows "S (cell_step s1 s2 i j st) ! k =
     (if k = j then pareto_merge2 (S st ! j) (S st ! (j - 1)) (Q st ! curr_line i ! (j - 1))
      else S st ! k)"
  using assms by (simp add: cell_step_def Let_def shape_def)

lemma T_cell_step:
  assumes "shape N st" "j \<le> N"
  shows "T (cell_step s1 s2 i j st) ! r ! k =
     (if r = curr_line i \<and> k = j
      then pareto_merge2 (T st ! curr_line i ! j) (T st ! prev_line i ! j) (Q st ! prev_line i ! j)
      else T st ! r ! k)"
  using assms by (simp add: cell_step_def Let_def shape_def nth_upd2)

lemma Q_cell_step:
  assumes "shape N st" "j \<le> N"
  shows "Q (cell_step s1 s2 i j st) ! r ! k =
     (if r = curr_line i \<and> k = j
      then pareto_merge3 (Q st ! curr_line i ! j)
             (pareto_merge2 (S st ! j) (S st ! (j - 1)) (Q st ! curr_line i ! (j - 1)))
             (pareto_merge2 (T st ! curr_line i ! j) (T st ! prev_line i ! j) (Q st ! prev_line i ! j))
             (Q st ! prev_line i ! (j - 1)) (s1 ! (i - 1) = s2 ! (j - 1))
      else Q st ! r ! k)"
  using assms by (simp add: cell_step_def Let_def shape_def nth_upd2)

lemma append_node_empty [simp]: "append_node [] m g = [vmg m g]"
  by (simp add: append_node_def insert_point_def)

lemma row_partial_seed:
  assumes "row_done s1 s2 N i st"
  shows "row_partial s1 s2 N (Suc i) 0 (seed_row (Suc i) st)"
  using assms
  by (auto simp: row_done_def row_partial_def shape_seed_row seed_row_def nth_upd2 shape_def)

lemma row_partial_step:
  assumes "row_partial s1 s2 N (Suc i) j st" "j < N"
  shows "row_partial s1 s2 N (Suc i) (Suc j) (cell_step s1 s2 (Suc i) (Suc j) st)"
proof -
  have sh: "shape N st" and jN: "Suc j \<le> N"
    using assms by (simp_all add: row_partial_def)
  have inv: "\<And>k. k \<le> N \<Longrightarrow>
            Q st ! prev_line i ! k = (if k \<le> j then Q_cell s1 s2 (Suc i) k else []) \<and>
            Q st ! curr_line i ! k = Q_cell s1 s2 i k \<and>
            T st ! prev_line i ! k = (if 0 < k \<and> k \<le> j then T_cell s1 s2 (Suc i) k else []) \<and>
            T st ! curr_line i ! k = (if k = 0 then [] else T_cell s1 s2 i k) \<and>
            S st ! k = (if k \<le> j then S_cell s1 s2 (Suc i) k else [])"
    using assms(1) by (simp add: row_partial_def)
  have a: "S st ! Suc j = []" "S st ! j = S_cell s1 s2 (Suc i) j"
    "Q st ! prev_line i ! j = Q_cell s1 s2 (Suc i) j" "Q st ! prev_line i ! Suc j = []"
    "Q st ! curr_line i ! j = Q_cell s1 s2 i j" "Q st ! curr_line i ! Suc j = Q_cell s1 s2 i (Suc j)"
    "T st ! prev_line i ! Suc j = []" "T st ! curr_line i ! Suc j = T_cell s1 s2 i (Suc j)"
    using inv[of j] inv[of "Suc j"] jN by simp_all
  show ?thesis
    unfolding row_partial_def
  proof (intro conjI allI impI)
    show "shape N (cell_step s1 s2 (Suc i) (Suc j) st)"
      using sh by (rule shape_cell_step)
  next
    fix k assume k: "k \<le> N"
    show "Q (cell_step s1 s2 (Suc i) (Suc j) st) ! curr_line (Suc i) ! k =
          (if k \<le> Suc j then Q_cell s1 s2 (Suc i) k else [])"
      using inv[OF k] a by (simp add: Q_cell_step[OF sh jN] le_Suc_eq)
    show "Q (cell_step s1 s2 (Suc i) (Suc j) st) ! prev_line (Suc i) ! k = Q_cell s1 s2 (Suc i - 1) k"
      using inv[OF k] by (simp add: Q_cell_step[OF sh jN])
    show "T (cell_step s1 s2 (Suc i) (Suc j) st) ! curr_line (Suc i) ! k =
          (if 0 < k \<and> k \<le> Suc j then T_cell s1 s2 (Suc i) k else [])"
      using inv[OF k] a by (auto simp add: T_cell_step[OF sh jN] le_Suc_eq)
    show "T (cell_step s1 s2 (Suc i) (Suc j) st) ! prev_line (Suc i) ! k =
          (if k = 0 then [] else T_cell s1 s2 (Suc i - 1) k)"
      using inv[OF k] by (simp add: T_cell_step[OF sh jN])
    show "S (cell_step s1 s2 (Suc i) (Suc j) st) ! k =
          (if k \<le> Suc j then S_cell s1 s2 (Suc i) k else [])"
      using inv[OF k] a by (simp add: S_cell_step[OF sh jN] le_Suc_eq)
  qed
qed

lemma row_partial_fill:
  assumes "row_done s1 s2 N i st" "j \<le> N"
  shows "row_partial s1 s2 N (Suc i) j (fill_row s1 s2 (Suc i) j st)"
  using assms(2)
proof (induction j)
  case 0
  show ?case using assms(1) by (simp add: row_partial_seed)
next
  case (Suc j)
  then show ?case by (simp add: row_partial_step)
qed

lemma reset_prev_effect:
  "S (reset_prev p n st) = S st"
  "shape N st \<Longrightarrow> shape N (reset_prev p n st)"
  "p < length (Q st) \<Longrightarrow> n < length (Q st ! p) \<Longrightarrow>
     Q (reset_prev p n st) ! r ! k = (if r = p \<and> k = n then [] else Q st ! r ! k)"
  "p < length (T st) \<Longrightarrow> n < length (T st ! p) \<Longrightarrow>
     T (reset_prev p n st) ! r ! k = (if r = p \<and> k = n then [] else T st ! r ! k)"
  by (simp_all add: reset_prev_def Let_def shape_def nth_upd2)

lemma fold_reset_prev:
  assumes "shape N st" "p < 2" "n \<le> Suc N"
  shows "shape N (fold (reset_prev p) [0..<n] st) \<and>
         S (fold (reset_prev p) [0..<n] st) = S st \<and>
         (\<forall>r k. Q (fold (reset_prev p) [0..<n] st) ! r ! k =
                  (if r = p \<and> k < n then [] else Q st ! r ! k)) \<and>
         (\<forall>r k. T (fold (reset_prev p) [0..<n] st) ! r ! k =
                  (if r = p \<and> k < n then [] else T st ! r ! k))"
  using assms(3)
proof (induction n)
  case 0
  show ?case using assms(1) by simp
next
  case (Suc n)
  define st' where "st' = fold (reset_prev p) [0..<n] st"
  have ih: "shape N st'" "S st' = S st"
    "\<And>r k. Q st' ! r ! k = (if r = p \<and> k < n then [] else Q st ! r ! k)"
    "\<And>r k. T st' ! r ! k = (if r = p \<and> k < n then [] else T st ! r ! k)"
    using Suc by (simp_all add: st'_def)
  have len: "p < length (Q st')" "n < length (Q st' ! p)" "p < length (T st')" "n < length (T st' ! p)"
    using ih(1) assms(2) Suc.prems by (simp_all add: shape_def)
  have up: "fold (reset_prev p) [0..<Suc n] st = reset_prev p n st'"
    by (simp add: st'_def)
  show ?case
    unfolding up using ih
    by (auto simp: reset_prev_effect(1) reset_prev_effect(2)
        reset_prev_effect(3)[OF len(1,2)] reset_prev_effect(4)[OF len(3,4)] less_Suc_eq)
qed

lemma reset_S_effect:
  "Q (reset_S n st) = Q st" "T (reset_S n st) = T st"
  "n < length (S st) \<Longrightarrow> S (reset_S n st) ! k = (if k = n then [] else S st ! k)"
  "shape N st \<Longrightarrow> shape N (reset_S n st)"
  by (simp_all add: reset_S_def shape_def nth_list_update)

lemma fold_reset_S:
  assumes "shape N st" "n \<le> Suc N"
  shows "shape N (fold reset_S [1..<n] st) \<and>
         Q (fold reset_S [1..<n] st) = Q st \<and> T (fold reset_S [1..<n] st) = T st \<and>
         (\<forall>k. S (fold reset_S [1..<n] st) ! k = (if 1 \<le> k \<and> k < n then [] else S st ! k))"
  using assms(2)
proof (induction n)
  case 0
  show ?case using assms(1) by simp
next
  case (Suc n)
  show ?case
  proof (cases "n = 0")
    case True
    then show ?thesis using assms(1) by simp
  next
    case False
    define st' where "st' = fold reset_S [1..<n] st"
    have ih: "shape N st'" "Q st' = Q st" "T st' = T st"
      "\<And>k. S st' ! k = (if 1 \<le> k \<and> k < n then [] else S st ! k)"
      using Suc by (simp_all add: st'_def)
    have len: "n < length (S st')"
      using ih(1) Suc.prems by (simp add: shape_def)
    have up: "fold reset_S [1..<Suc n] st = reset_S n st'"
      using False by (simp add: st'_def)
    show ?thesis
      unfolding up using ih False
      by (auto simp: reset_S_effect(1,2) reset_S_effect(3)[OF len] reset_S_effect(4))
  qed
qed

lemma align_row_eq:
  "align_row s1 s2 N i st =
     fold reset_S [1..<Suc N] (fold (reset_prev (prev_line i)) [0..<Suc N] (fill_row s1 s2 i N st))"
  by (simp only: align_row_def Let_def Suc_eq_plus1)

lemma row_done_align_row:
  assumes "row_done s1 s2 N i st"
  shows "row_done s1 s2 N (Suc i) (align_row s1 s2 N (Suc i) st)"
proof -
  define st2 where "st2 = fill_row s1 s2 (Suc i) N st"
  define st3 where "st3 = fold (reset_prev (prev_line (Suc i))) [0..<Suc N] st2"
  define st4 where "st4 = fold reset_S [1..<Suc N] st3"
  have p: "row_partial s1 s2 N (Suc i) N st2"
    using assms by (simp add: row_partial_fill st2_def)
  then have sh2: "shape N st2"
    by (simp add: row_partial_def)
  have "prev_line (Suc i) < 2" by simp
  from fold_reset_prev[OF sh2 this, of "Suc N"]
  have r3: "shape N st3" "S st3 = S st2"
    "\<And>r k. Q st3 ! r ! k = (if r = prev_line (Suc i) \<and> k < Suc N then [] else Q st2 ! r ! k)"
    "\<And>r k. T st3 ! r ! k = (if r = prev_line (Suc i) \<and> k < Suc N then [] else T st2 ! r ! k)"
    unfolding st3_def by blast+
  from fold_reset_S[OF r3(1), of "Suc N"]
  have r4: "shape N st4" "Q st4 = Q st3" "T st4 = T st3"
    "\<And>k. S st4 ! k = (if 1 \<le> k \<and> k < Suc N then [] else S st3 ! k)"
    unfolding st4_def by blast+
  have "row_done s1 s2 N (Suc i) st4"
    unfolding row_done_def
  proof (intro conjI allI impI)
    show "shape N st4" by (rule r4(1))
  next
    fix k assume k: "k \<le> N"
    have inv: "Q st2 ! curr_line (Suc i) ! k = Q_cell s1 s2 (Suc i) k"
      "T st2 ! curr_line (Suc i) ! k = (if 0 < k then T_cell s1 s2 (Suc i) k else [])"
      "S st2 ! k = S_cell s1 s2 (Suc i) k"
      using p k by (simp_all add: row_partial_def)
    show "Q st4 ! curr_line (Suc i) ! k = Q_cell s1 s2 (Suc i) k"
      using inv by (simp add: r4 r3)
    show "Q st4 ! prev_line (Suc i) ! k = []"
      using k by (simp add: r4 r3)
    show "T st4 ! curr_line (Suc i) ! k = (if k = 0 then [] else T_cell s1 s2 (Suc i) k)"
      using inv by (simp add: r4 r3)
    show "T st4 ! prev_line (Suc i) ! k = []"
      using k by (simp add: r4 r3)
    show "S st4 ! k = (if k = 0 then [vmg 0 INT_MAX] else [])"
      using inv k by (auto simp add: r4 r3)
  qed
  then show ?thesis
    by (simp only: align_row_eq st4_def st3_def st2_def)
qed

lemma init_base_col_effect:
  "S (init_base_col n st) = S st"
  "shape N st \<Longrightarrow> shape N (init_base_col n st)"
  "0 < length (Q st) \<Longrightarrow> n < length (Q st ! 0) \<Longrightarrow>
     Q (init_base_col n st) ! r ! k =
       (if r = 0 \<and> k = n then append_node (Q st ! 0 ! n) 0 1 else Q st ! r ! k)"
  "0 < length (T st) \<Longrightarrow> n < length (T st ! 0) \<Longrightarrow>
     T (init_base_col n st) ! r ! k =
       (if r = 0 \<and> k = n then append_node (T st ! 0 ! n) 0 INT_MAX else T st ! r ! k)"
  by (simp_all add: init_base_col_def Let_def shape_def nth_upd2)

lemma fold_init_base_col:
  assumes "shape N st" "n \<le> N"
    and "\<And>k. 1 \<le> k \<Longrightarrow> k \<le> N \<Longrightarrow> Q st ! 0 ! k = [] \<and> T st ! 0 ! k = []"
  shows "shape N (fold init_base_col [1..<Suc n] st) \<and>
         S (fold init_base_col [1..<Suc n] st) = S st \<and>
         (\<forall>r k. Q (fold init_base_col [1..<Suc n] st) ! r ! k =
                  (if r = 0 \<and> 1 \<le> k \<and> k \<le> n then [vmg 0 1] else Q st ! r ! k)) \<and>
         (\<forall>r k. T (fold init_base_col [1..<Suc n] st) ! r ! k =
                  (if r = 0 \<and> 1 \<le> k \<and> k \<le> n then [vmg 0 INT_MAX] else T st ! r ! k))"
  using assms(2)
proof (induction n)
  case 0
  show ?case using assms(1) by simp
next
  case (Suc n)
  define st' where "st' = fold init_base_col [1..<Suc n] st"
  have ih: "shape N st'" "S st' = S st"
    "\<And>r k. Q st' ! r ! k = (if r = 0 \<and> 1 \<le> k \<and> k \<le> n then [vmg 0 1] else Q st ! r ! k)"
    "\<And>r k. T st' ! r ! k = (if r = 0 \<and> 1 \<le> k \<and> k \<le> n then [vmg 0 INT_MAX] else T st ! r ! k)"
    using Suc by (simp_all add: st'_def)
  have len: "0 < length (Q st')" "Suc n < length (Q st' ! 0)"
    "0 < length (T st')" "Suc n < length (T st' ! 0)"
    using ih(1) Suc.prems by (simp_all add: shape_def)
  have up: "fold init_base_col [1..<Suc (Suc n)] st = init_base_col (Suc n) st'"
    by (simp add: st'_def)
  have e: "Q st ! 0 ! Suc n = []" "T st ! 0 ! Suc n = []"
    using assms(3)[of "Suc n"] Suc.prems by simp_all
  show ?case
    unfolding up using ih e
    by (auto simp: init_base_col_effect(1) init_base_col_effect(2)
        init_base_col_effect(3)[OF len(1,2)] init_base_col_effect(4)[OF len(3,4)] le_Suc_eq)
qed

lemma nth_alloc:
  "r < 2 \<Longrightarrow> k \<le> N \<Longrightarrow> Q (alloc_tables N) ! r ! k = []"
  "r < 2 \<Longrightarrow> k \<le> N \<Longrightarrow> T (alloc_tables N) ! r ! k = []"
  "k \<le> N \<Longrightarrow> S (alloc_tables N) ! k = []"
  by (auto simp: alloc_tables_def less_2_cases_iff nth_Cons split: nat.splits)

lemma row_done_init: "row_done s1 s2 N 0 (init_dynamic_tables N)"
proof -
  define st1 where
    "st1 = (alloc_tables N)\<lparr>Q := upd2 (Q (alloc_tables N)) 0 0 (append_node (Q (alloc_tables N) ! 0 ! 0) 0 0)\<rparr>"
  define st2 where "st2 = fold init_base_col [1..<Suc N] st1"
  have sh0: "shape N (alloc_tables N)" by (rule shape_alloc)
  then have sh1: "shape N st1"
    by (simp add: st1_def shape_def)
  have q1: "\<And>r k. r < 2 \<Longrightarrow> k \<le> N \<Longrightarrow> Q st1 ! r ! k = (if r = 0 \<and> k = 0 then [vmg 0 0] else [])"
    and t1: "\<And>r k. r < 2 \<Longrightarrow> k \<le> N \<Longrightarrow> T st1 ! r ! k = []"
    and s1: "\<And>k. k \<le> N \<Longrightarrow> S st1 ! k = []"
    using sh0 by (simp_all add: st1_def nth_upd2 shape_def nth_alloc)
  have "\<And>k. 1 \<le> k \<Longrightarrow> k \<le> N \<Longrightarrow> Q st1 ! 0 ! k = [] \<and> T st1 ! 0 ! k = []"
    using q1[of 0] t1[of 0] by simp
  from fold_init_base_col[OF sh1 le_refl this]
  have r2: "shape N st2" "S st2 = S st1"
    "\<And>r k. Q st2 ! r ! k = (if r = 0 \<and> 1 \<le> k \<and> k \<le> N then [vmg 0 1] else Q st1 ! r ! k)"
    "\<And>r k. T st2 ! r ! k = (if r = 0 \<and> 1 \<le> k \<and> k \<le> N then [vmg 0 INT_MAX] else T st1 ! r ! k)"
    unfolding st2_def by blast+
  have eq: "init_dynamic_tables N = st2\<lparr>S := (S st2)[0 := append_node (S st2 ! 0) 0 INT_MAX]\<rparr>"
    by (simp only: init_dynamic_tables_def Let_def st2_def st1_def)
  have len: "0 < length (S st2)"
    using r2(1) by (simp add: shape_def)
  show ?thesis
    unfolding row_done_def eq
  proof (intro conjI allI impI)
    show "shape N (st2\<lparr>S := (S st2)[0 := append_node (S st2 ! 0) 0 INT_MAX]\<rparr>)"
      using r2(1) by (simp add: shape_def)
  next
    fix k assume k: "k \<le> N"
    let ?st = "st2\<lparr>S := (S st2)[0 := append_node (S st2 ! 0) 0 INT_MAX]\<rparr>"
    show "Q ?st ! curr_line 0 ! k = Q_cell s1 s2 0 k"
      using k q1[of 0 k] by (cases k) (simp_all add: r2)
    show "Q ?st ! prev_line 0 ! k = []"
      using k q1[of 1 k] by (simp add: r2)
    show "T ?st ! curr_line 0 ! k = (if k = 0 then [] else T_cell s1 s2 0 k)"
      using k t1[of 0 k] by (auto simp add: r2)
    show "T ?st ! prev_line 0 ! k = []"
      using k t1[of 1 k] by (simp add: r2)
    show "S ?st ! k = (if k = 0 then [vmg 0 INT_MAX] else [])"
      using k s1[of k] s1[of 0] len by (simp add: r2 nth_list_update)
  qed
qed

lemma row_done_align: "row_done s1 s2 N i (align s1 s2 i N (init_dynamic_tables N))"
  by (induction i) (simp_all add: row_done_init row_done_align_row)

lemma row_partial_state:
  "j \<le> N \<Longrightarrow> row_partial s1 s2 N (Suc i) j
      (fill_row s1 s2 (Suc i) j (align s1 s2 i N (init_dynamic_tables N)))"
  by (rule row_partial_fill[OF row_done_align])

lemma curr_line_mod: "curr_line i = i mod 2"
  by (simp add: curr_line_def)

lemma final_frontier_eq: "final_frontier s1 s2 = Q_cell s1 s2 (length s1) (length s2)"
  using row_done_align[of s1 s2 "length s2" "length s1"]
  by (simp add: final_frontier_def Let_def row_done_def curr_line_mod)

section \<open>Insertion keeps a Pareto set free of dominated points\<close>

lemma dominates_irrefl [simp]: "\<not> dominates p p"
  by (simp add: dominates_def)

lemma dominates_trans: "dominates p q \<Longrightarrow> dominates q r \<Longrightarrow> dominates p r"
  by (auto simp: dominates_def)

lemma dominates_asym: "dominates p q \<Longrightarrow> \<not> dominates q p"
  by (auto simp: dominates_def)

lemma set_insert_point:
  "set (insert_point F p) =
     (if \<exists>q \<in> set F. dominates q p \<or> q = p then set F
      else {q \<in> set F. \<not> dominates p q} \<union> {p})"
  by (auto simp: insert_point_def)

lemma set_insert_point_subset: "set (insert_point F p) \<subseteq> insert p (set F)"
  by (auto simp: set_insert_point)

lemma set_insert_all_subset: "set (insert_all res ps) \<subseteq> set res \<union> set ps"
proof (induction ps arbitrary: res)
  case Nil
  show ?case by (simp add: insert_all_def)
next
  case (Cons p ps)
  have "set (insert_all (insert_point res p) ps) \<subseteq> set (insert_point res p) \<union> set ps"
    by (rule Cons.IH)
  then show ?case
    using set_insert_point_subset[of res p] by (auto simp: insert_all_def)
qed

lemma nondominated_insert_point:
  assumes "nondominated F"
  shows "nondominated (insert_point F p)"
  using assms
  by (auto simp: nondominated_def set_insert_point split: if_splits)

lemma nondominated_insert_all:
  "nondominated res \<Longrightarrow> nondominated (insert_all res ps)"
proof (induction ps arbitrary: res)
  case Nil
  then show ?case by (simp add: insert_all_def)
next
  case (Cons p ps)
  have "nondominated (insert_all (insert_point res p) ps)"
    using Cons.prems by (intro Cons.IH nondominated_insert_point)
  then show ?case by (simp add: insert_all_def)
qed

lemma nondominated_Nil [simp]: "nondominated []"
  by (simp add: nondominated_def)

lemma nondominated_merge2: "nondominated (pareto_merge2 [] A B)"
  by (simp add: pareto_merge2_def nondominated_insert_all)

lemma nondominated_merge3: "nondominated (pareto_merge3 [] A B C m)"
  by (simp add: pareto_merge3_def nondominated_insert_all)

lemma cells_after_step:
  assumes "j < length s2"
  shows "S (state_at s1 s2 (Suc i) (Suc j)) ! Suc j = S_cell s1 s2 (Suc i) (Suc j)"
    and "T (state_at s1 s2 (Suc i) (Suc j)) ! curr_line (Suc i) ! Suc j = T_cell s1 s2 (Suc i) (Suc j)"
    and "Q (state_at s1 s2 (Suc i) (Suc j)) ! curr_line (Suc i) ! Suc j = Q_cell s1 s2 (Suc i) (Suc j)"
proof -
  have "row_partial s1 s2 (length s2) (Suc i) (Suc j) (state_at s1 s2 (Suc i) (Suc j))"
    unfolding state_at_def using assms(1) row_partial_state[of "Suc j" "length s2" s1 s2 i] by simp
  then show "S (state_at s1 s2 (Suc i) (Suc j)) ! Suc j = S_cell s1 s2 (Suc i) (Suc j)"
    and "T (state_at s1 s2 (Suc i) (Suc j)) ! curr_line (Suc i) ! Suc j = T_cell s1 s2 (Suc i) (Suc j)"
    and "Q (state_at s1 s2 (Suc i) (Suc j)) ! curr_line (Suc i) ! Suc j = Q_cell s1 s2 (Suc i) (Suc j)"
    using assms(1) unfolding row_partial_def by (simp_all del: Q_cell.simps S_cell.simps T_cell.simps)
qed

lemma merge2_sentinel: "pareto_merge2 [] [vmg 0 INT_MAX] [vmg 0 1] = [vmg 0 2]"
  by (simp add: pareto_merge2_def insert_all_def insert_point_def dominates_def
      gap_extension_def vmg_def INT_MAX_def)

section \<open>Bounds on the stored points, and the frame of a row\<close>

lemma set_merge2_subset: "set (pareto_merge2 [] A B) \<subseteq> gap_extension ` (set A \<union> set B)"
  using set_insert_all_subset[of "[]" "map gap_extension A @ map gap_extension B"]
  by (auto simp: pareto_merge2_def)

lemma set_merge3_subset:
  "set (pareto_merge3 [] A B C m) \<subseteq> set A \<union> set B \<union> diagonal_extension m ` set C"
  using set_insert_all_subset[of "[]" "A @ B @ map (diagonal_extension m) C"]
  by (auto simp: pareto_merge3_def)

lemma in_bounds_gap_right: "in_bounds i j p \<Longrightarrow> in_bounds i (Suc j) (gap_extension p)"
  by (auto simp: in_bounds_def gap_extension_def)

lemma in_bounds_gap_down: "in_bounds i j p \<Longrightarrow> in_bounds (Suc i) j (gap_extension p)"
  by (auto simp: in_bounds_def gap_extension_def)

lemma in_bounds_diag: "in_bounds i j p \<Longrightarrow> in_bounds (Suc i) (Suc j) (diagonal_extension m p)"
  by (auto simp: in_bounds_def diagonal_extension_def)

lemma in_bounds_base: "in_bounds 0 0 (vmg 0 0)" "in_bounds 0 (Suc j) (vmg 0 1)"
  "in_bounds (Suc i) 0 (vmg 0 1)" "in_bounds (Suc i) (Suc 0) (vmg 0 2)" "in_bounds (Suc 0) (Suc j) (vmg 0 2)"
  by (simp_all add: in_bounds_def vmg_def)

lemma cell_bounds:
  "\<forall>p \<in> set (Q_cell s1 s2 i j). in_bounds i j p"
  "0 < i \<longrightarrow> 0 < j \<longrightarrow> (\<forall>p \<in> set (S_cell s1 s2 i j). in_bounds i j p)"
  "0 < i \<longrightarrow> 0 < j \<longrightarrow> (\<forall>p \<in> set (T_cell s1 s2 i j). in_bounds i j p)"
proof (induction s1 s2 i j and s1 s2 i j and s1 s2 i j rule: Q_cell_S_cell_T_cell.induct)
  case (1 s1 s2)
  show ?case by (simp add: in_bounds_base)
next
  case (2 s1 s2 j)
  show ?case by (simp add: in_bounds_base)
next
  case (3 s1 s2 i)
  show ?case by (simp add: in_bounds_base)
next
  case (4 s1 s2 i j)
  show ?case
  proof
    fix p assume "p \<in> set (Q_cell s1 s2 (Suc i) (Suc j))"
    then have "p \<in> set (S_cell s1 s2 (Suc i) (Suc j)) \<union> set (T_cell s1 s2 (Suc i) (Suc j)) \<union>
                 diagonal_extension (s1 ! i = s2 ! j) ` set (Q_cell s1 s2 i j)"
      by (simp only: Q_cell.simps) (rule subsetD[OF set_merge3_subset])
    then show "in_bounds (Suc i) (Suc j) p"
      using 4 by (auto simp del: Q_cell.simps S_cell.simps T_cell.simps intro: in_bounds_diag)
  qed
next
  case (5 s1 s2 i)
  show ?case by simp
next
  case (6 s1 s2 i j)
  show ?case
  proof (intro impI)
    assume i: "0 < i"
    then obtain i' where i': "i = Suc i'" by (cases i) auto
    show "\<forall>p \<in> set (S_cell s1 s2 i (Suc j)). in_bounds i (Suc j) p"
    proof (cases j)
      case 0
      then show ?thesis
        by (simp add: i' merge2_sentinel in_bounds_base)
    next
      case (Suc j')
      show ?thesis
      proof
        fix p assume "p \<in> set (S_cell s1 s2 i (Suc j))"
        then have "p \<in> gap_extension ` (set (S_cell s1 s2 i j) \<union> set (Q_cell s1 s2 i j))"
          by (simp only: S_cell.simps) (rule subsetD[OF set_merge2_subset])
        then show "in_bounds i (Suc j) p"
          using 6 i Suc by (auto intro: in_bounds_gap_right)
      qed
    qed
  qed
next
  case (7 s1 s2 j)
  show ?case by simp
next
  case (8 s1 s2 i j)
  show ?case
  proof (intro impI)
    assume j: "0 < j"
    then obtain j' where j': "j = Suc j'" by (cases j) auto
    show "\<forall>p \<in> set (T_cell s1 s2 (Suc i) j). in_bounds (Suc i) j p"
    proof (cases i)
      case 0
      then show ?thesis
        by (simp add: j' merge2_sentinel in_bounds_base)
    next
      case (Suc i')
      show ?thesis
      proof
        fix p assume "p \<in> set (T_cell s1 s2 (Suc i) j)"
        then have "p \<in> gap_extension ` (set (T_cell s1 s2 i j) \<union> set (Q_cell s1 s2 i j))"
          by (simp only: T_cell.simps) (rule subsetD[OF set_merge2_subset])
        then show "in_bounds (Suc i) j p"
          using 8 j Suc by (auto intro: in_bounds_gap_down)
      qed
    qed
  qed
qed

lemma Q_after_rows:
  "j \<le> N \<Longrightarrow> Q (align s1 s2 i N (init_dynamic_tables N)) ! (i mod 2) ! j = Q_cell s1 s2 i j"
  using row_done_align[of s1 s2 N i] by (simp add: row_done_def curr_line_mod)

lemma S0_fill_row:
  "shape N st \<Longrightarrow> j \<le> N \<Longrightarrow>
   shape N (fill_row s1 s2 i j st) \<and> S (fill_row s1 s2 i j st) ! 0 = S st ! 0"
proof (induction j)
  case 0
  then show ?case by (simp add: shape_seed_row) (simp add: seed_row_def)
next
  case (Suc j)
  then show ?case by (simp add: shape_cell_step S_cell_step[where N = N])
qed

lemma S0_align_row:
  assumes "shape N st"
  shows "S (align_row s1 s2 N i st) ! 0 = S st ! 0"
proof -
  define st2 where "st2 = fill_row s1 s2 i N st"
  define st3 where "st3 = fold (reset_prev (prev_line i)) [0..<Suc N] st2"
  have s2: "shape N st2" "S st2 ! 0 = S st ! 0"
    using S0_fill_row[OF assms le_refl, of s1 s2 i] by (simp_all add: st2_def)
  have "prev_line i < 2" by simp
  from fold_reset_prev[OF s2(1) this, of "Suc N"]
  have s3: "shape N st3" "S st3 = S st2"
    unfolding st3_def by blast+
  from fold_reset_S[OF s3(1), of "Suc N"]
  have "S (fold reset_S [1..<Suc N] st3) ! 0 = S st3 ! 0"
    by simp
  then show ?thesis
    using s2 s3 by (simp only: align_row_eq st3_def st2_def)
qed

lemma shape_init: "shape N (init_dynamic_tables N)"
  using row_done_init[of "[]" "[]" N] by (simp add: row_done_def)

section \<open>The Pareto front of a finite set, and what insertion computes\<close>

lemma set_pareto_filter: "set (pareto_filter ps) = front (set ps)"
  by (auto simp: pareto_filter_def front_def)

lemma front_subset: "front A \<subseteq> A"
  by (auto simp: front_def)

lemma front_covers:
  assumes "finite A" "p \<in> A"
  shows "p \<in> front A \<or> (\<exists>q \<in> front A. dominates q p)"
  using assms(2)
proof (induction "card {q \<in> A. dominates q p}" arbitrary: p rule: less_induct)
  case less
  show ?case
  proof (cases "p \<in> front A")
    case True
    then show ?thesis by simp
  next
    case False
    then obtain q where q: "q \<in> A" "dominates q p"
      using less.prems by (auto simp: front_def)
    have "q \<in> {r \<in> A. dominates r p}" "q \<notin> {r \<in> A. dominates r q}"
      using q by simp_all
    moreover have "{r \<in> A. dominates r q} \<subseteq> {r \<in> A. dominates r p}"
      using q dominates_trans[of _ q p] by blast
    ultimately have "{r \<in> A. dominates r q} \<subset> {r \<in> A. dominates r p}"
      by blast
    moreover have "finite {r \<in> A. dominates r p}"
      using assms(1) by simp
    ultimately have "card {r \<in> A. dominates r q} < card {r \<in> A. dominates r p}"
      by (rule psubset_card_mono[rotated])
    from less.hyps[OF this q(1)] show ?thesis
      using q(2) dominates_trans[of _ q p] by blast
  qed
qed

lemma front_union_left:
  assumes "finite A"
  shows "front (front A \<union> B) = front (A \<union> B)"
proof (intro set_eqI iffI)
  fix x assume x: "x \<in> front (front A \<union> B)"
  then have xin: "x \<in> A \<union> B" and nd: "\<forall>q \<in> front A \<union> B. \<not> dominates q x"
    using front_subset[of A] by (auto simp: front_def)
  have "\<not> dominates y x" if "y \<in> A \<union> B" for y
  proof (cases "y \<in> B")
    case True
    then show ?thesis using nd by blast
  next
    case False
    then have "y \<in> A" using that by simp
    from front_covers[OF assms this] show ?thesis
      using nd dominates_trans[of _ y x] by blast
  qed
  then show "x \<in> front (A \<union> B)"
    using xin by (auto simp: front_def)
next
  fix x assume x: "x \<in> front (A \<union> B)"
  then show "x \<in> front (front A \<union> B)"
    by (auto simp: front_def)
qed

lemma front_union_right: "finite B \<Longrightarrow> front (A \<union> front B) = front (A \<union> B)"
  using front_union_left[of B A] by (simp add: Un_commute)

lemma front_idem: "finite A \<Longrightarrow> front (front A) = front A"
  using front_union_left[of A "{}"] by simp

lemma front_absorb:
  assumes "finite A" "B \<subseteq> A"
  shows "front (front B \<union> front A) = front A"
proof -
  have "finite B" using assms by (rule rev_finite_subset)
  then have "front (front B \<union> front A) = front (B \<union> A)"
    using assms(1) by (simp add: front_union_left front_union_right)
  also have "B \<union> A = A" using assms(2) by blast
  finally show ?thesis .
qed

lemma front_image:
  assumes "\<And>p q. dominates (f p) (f q) \<longleftrightarrow> dominates p q"
  shows "front (f ` A) = f ` front A"
  using assms by (auto simp: front_def)

lemma dominates_gap_extension [simp]:
  "dominates (gap_extension p) (gap_extension q) \<longleftrightarrow> dominates p q"
  by (auto simp: dominates_def gap_extension_def)

lemma dominates_diagonal_extension [simp]:
  "dominates (diagonal_extension m p) (diagonal_extension m q) \<longleftrightarrow> dominates p q"
  by (auto simp: dominates_def diagonal_extension_def)

lemma front_gap_extension: "front (gap_extension ` A) = gap_extension ` front A"
  by (rule front_image) simp

lemma front_diagonal_extension: "front (diagonal_extension m ` A) = diagonal_extension m ` front A"
  by (rule front_image) simp

lemma set_insert_point_front:
  assumes "front (set F) = set F"
  shows "set (insert_point F p) = front (insert p (set F))"
proof -
  have nd: "\<And>a b. a \<in> set F \<Longrightarrow> b \<in> set F \<Longrightarrow> \<not> dominates a b"
    using assms by (auto simp: front_def)
  show ?thesis
  proof (cases "\<exists>q \<in> set F. dominates q p \<or> q = p")
    case True
    then have "set (insert_point F p) = set F"
      by (simp add: set_insert_point)
    moreover have "front (insert p (set F)) = set F"
      using True nd dominates_trans[of _ p] by (auto simp: front_def)
    ultimately show ?thesis by simp
  next
    case False
    then have "set (insert_point F p) = {q \<in> set F. \<not> dominates p q} \<union> {p}"
      by (simp add: set_insert_point)
    moreover have "front (insert p (set F)) = {q \<in> set F. \<not> dominates p q} \<union> {p}"
      using False nd by (auto simp: front_def)
    ultimately show ?thesis by simp
  qed
qed

lemma set_insert_all_front:
  "front (set res) = set res \<Longrightarrow> set (insert_all res ps) = front (set res \<union> set ps)"
proof (induction ps arbitrary: res)
  case Nil
  then show ?case by (simp add: insert_all_def)
next
  case (Cons p ps)
  have s: "set (insert_point res p) = front (insert p (set res))"
    using Cons.prems by (rule set_insert_point_front)
  then have "front (set (insert_point res p)) = set (insert_point res p)"
    by (simp add: front_idem)
  from Cons.IH[OF this]
  have "set (insert_all (insert_point res p) ps) = front (front (insert p (set res)) \<union> set ps)"
    by (simp add: s)
  also have "\<dots> = front (insert p (set res) \<union> set ps)"
    by (simp add: front_union_left)
  finally show ?case
    by (simp add: insert_all_def)
qed

lemma set_merge2_front:
  "set (pareto_merge2 [] A B) = front (gap_extension ` (set A \<union> set B))"
  using set_insert_all_front[of "[]" "map gap_extension A @ map gap_extension B"]
  by (simp add: pareto_merge2_def front_def image_Un)

lemma set_merge3_front:
  "set (pareto_merge3 [] A B C m) = front (set A \<union> set B \<union> diagonal_extension m ` set C)"
  using set_insert_all_front[of "[]" "A @ B @ map (diagonal_extension m) C"]
  by (simp add: pareto_merge3_def front_def Un_assoc)

section \<open>Alignments by their last column\<close>

lemma alignments_sound: "al \<in> set (alignments xs ys) \<Longrightarrow> proj1 al = xs \<and> proj2 al = ys"
  by (induction xs ys arbitrary: al rule: alignments.induct) auto

lemma alignments_own: "al \<in> set (alignments (proj1 al) (proj2 al))"
proof (induction al rule: proj1.induct)
  case 1
  show ?case by simp
next
  case (2 a b al)
  then show ?case by simp
next
  case (3 b al)
  then show ?case by (cases "proj1 al") simp_all
next
  case (4 a al)
  then show ?case by (cases "proj2 al") simp_all
qed

lemma set_alignments: "set (alignments xs ys) = Al xs ys"
proof (intro set_eqI iffI)
  fix al assume "al \<in> set (alignments xs ys)"
  then show "al \<in> Al xs ys"
    by (simp add: Al_def alignments_sound)
next
  fix al assume "al \<in> Al xs ys"
  then have "proj1 al = xs" "proj2 al = ys" by (simp_all add: Al_def)
  then show "al \<in> set (alignments xs ys)"
    using alignments_own[of al] by simp
qed

lemma finite_Al: "finite (Al xs ys)"
  by (simp add: set_alignments[symmetric])

lemma finite_reach: "finite (reach xs ys)"
  by (simp add: reach_def finite_Al)

lemma proj1_append [simp]: "proj1 (al @ al') = proj1 al @ proj1 al'"
  by (induction al rule: proj1.induct) simp_all

lemma proj2_append [simp]: "proj2 (al @ al') = proj2 al @ proj2 al'"
  by (induction al rule: proj2.induct) simp_all

lemma Al_Nil_Nil: "Al [] [] = {[]}"
proof -
  have "al = []" if "proj1 al = []" "proj2 al = []" for al
    using that by (cases al rule: proj1.cases) simp_all
  then show ?thesis by (auto simp: Al_def)
qed

lemma Al_snoc:
  "Al (xs @ [a]) (ys @ [b]) =
     (\<lambda>al. al @ [Both a b]) ` Al xs ys \<union>
     (\<lambda>al. al @ [GapS b]) ` Al (xs @ [a]) ys \<union>
     (\<lambda>al. al @ [GapT a]) ` Al xs (ys @ [b])"
proof (intro set_eqI iffI)
  fix al assume "al \<in> Al (xs @ [a]) (ys @ [b])"
  then have p: "proj1 al = xs @ [a]" "proj2 al = ys @ [b]"
    by (simp_all add: Al_def)
  then have "al \<noteq> []" by auto
  then obtain al' c where al: "al = al' @ [c]"
    by (meson rev_exhaust)
  show "al \<in> (\<lambda>al. al @ [Both a b]) ` Al xs ys \<union>
     (\<lambda>al. al @ [GapS b]) ` Al (xs @ [a]) ys \<union>
     (\<lambda>al. al @ [GapT a]) ` Al xs (ys @ [b])"
    using p unfolding al by (cases c) (auto simp: Al_def)
next
  fix al assume "al \<in> (\<lambda>al. al @ [Both a b]) ` Al xs ys \<union>
     (\<lambda>al. al @ [GapS b]) ` Al (xs @ [a]) ys \<union>
     (\<lambda>al. al @ [GapT a]) ` Al xs (ys @ [b])"
  then show "al \<in> Al (xs @ [a]) (ys @ [b])"
    by (auto simp: Al_def)
qed

lemma n_matches_snoc [simp]: "n_matches (al @ [c]) = n_matches al + (if is_match c then 1 else 0)"
  by (simp add: n_matches_def)

lemma n_gaps_snoc [simp]: "n_gaps (al @ [c]) = n_gaps al + (if is_gap c then 1 else 0)"
  by (simp add: n_gaps_def)

lemma takeWhile_snoc_stop: "\<not> P c \<Longrightarrow> takeWhile P (rest @ [c]) = takeWhile P rest"
  by (induction rest) auto

lemma leading_run_snoc_Both [simp]: "leading_run (al @ [Both a b]) = leading_run al"
proof (cases al)
  case Nil
  then show ?thesis by (simp add: leading_run_def)
next
  case (Cons c rest)
  have "takeWhile (same_kind c) (rest @ [Both a b]) = takeWhile (same_kind c) rest"
    by (rule takeWhile_snoc_stop) (cases c; simp)
  then show ?thesis using Cons by (simp add: leading_run_def)
qed

lemma not_same_kind_GapS: "\<not> same_kind (GapS b') x \<longleftrightarrow> (\<forall>b. x \<noteq> GapS b)"
  by (cases x) simp_all

lemma not_same_kind_GapT: "\<not> same_kind (GapT a') x \<longleftrightarrow> (\<forall>a. x \<noteq> GapT a)"
  by (cases x) simp_all

lemma proj1_breaks_GapS: "proj1 al \<noteq> [] \<Longrightarrow> \<exists>x \<in> set al. \<not> same_kind (GapS b') x"
  unfolding not_same_kind_GapS by (induction al rule: proj1.induct) auto

lemma proj2_breaks_GapT: "proj2 al \<noteq> [] \<Longrightarrow> \<exists>x \<in> set al. \<not> same_kind (GapT a') x"
  unfolding not_same_kind_GapT by (induction al rule: proj2.induct) auto

lemma leading_run_snoc_GapS:
  assumes "proj1 al \<noteq> []"
  shows "leading_run (al @ [GapS b]) = leading_run al"
proof (cases al)
  case Nil
  then show ?thesis using assms by simp
next
  case (Cons c rest)
  show ?thesis
  proof (cases c)
    case (Both a' b')
    then show ?thesis using Cons by (simp add: leading_run_def)
  next
    case (GapT a')
    then show ?thesis using Cons by (simp add: leading_run_def takeWhile_snoc_stop)
  next
    case (GapS b')
    then have "proj1 rest \<noteq> []" using assms Cons by simp
    then obtain x where "x \<in> set rest" "\<not> same_kind (GapS b') x"
      using proj1_breaks_GapS by blast
    then have "takeWhile (same_kind (GapS b')) (rest @ [GapS b]) = takeWhile (same_kind (GapS b')) rest"
      by (rule takeWhile_append1)
    then show ?thesis using Cons GapS by (simp add: leading_run_def)
  qed
qed

lemma leading_run_snoc_GapT:
  assumes "proj2 al \<noteq> []"
  shows "leading_run (al @ [GapT a]) = leading_run al"
proof (cases al)
  case Nil
  then show ?thesis using assms by simp
next
  case (Cons c rest)
  show ?thesis
  proof (cases c)
    case (Both a' b')
    then show ?thesis using Cons by (simp add: leading_run_def)
  next
    case (GapS b')
    then show ?thesis using Cons by (simp add: leading_run_def takeWhile_snoc_stop)
  next
    case (GapT a')
    then have "proj2 rest \<noteq> []" using assms Cons by simp
    then obtain x where "x \<in> set rest" "\<not> same_kind (GapT a') x"
      using proj2_breaks_GapT by blast
    then have "takeWhile (same_kind (GapT a')) (rest @ [GapT a]) = takeWhile (same_kind (GapT a')) rest"
      by (rule takeWhile_append1)
    then show ?thesis using Cons GapT by (simp add: leading_run_def)
  qed
qed

lemma score_snoc_Both:
  "lead_once_score (al @ [Both a b]) = diagonal_extension (a = b) (lead_once_score al)"
  by (simp add: lead_once_score_def lead_once_gaps_def diagonal_extension_def vmg_def)

lemma score_snoc_GapS:
  "proj1 al \<noteq> [] \<Longrightarrow> lead_once_score (al @ [GapS b]) = gap_extension (lead_once_score al)"
  by (simp add: lead_once_score_def lead_once_gaps_def gap_extension_def vmg_def leading_run_snoc_GapS)

lemma score_snoc_GapT:
  "proj2 al \<noteq> [] \<Longrightarrow> lead_once_score (al @ [GapT a]) = gap_extension (lead_once_score al)"
  by (simp add: lead_once_score_def lead_once_gaps_def gap_extension_def vmg_def leading_run_snoc_GapT)

lemma reach_snoc:
  "reach (xs @ [a]) (ys @ [b]) =
     diagonal_extension (a = b) ` reach xs ys \<union>
     gap_extension ` reach (xs @ [a]) ys \<union>
     gap_extension ` reach xs (ys @ [b])"
proof -
  have 1: "lead_once_score ` (\<lambda>al. al @ [Both a b]) ` Al xs ys = diagonal_extension (a = b) ` reach xs ys"
    by (simp add: reach_def image_image score_snoc_Both)
  have 2: "lead_once_score ` (\<lambda>al. al @ [GapS b]) ` Al (xs @ [a]) ys = gap_extension ` reach (xs @ [a]) ys"
    unfolding reach_def image_image
    by (rule image_cong) (auto simp: Al_def score_snoc_GapS)
  have 3: "lead_once_score ` (\<lambda>al. al @ [GapT a]) ` Al xs (ys @ [b]) = gap_extension ` reach xs (ys @ [b])"
    unfolding reach_def image_image
    by (rule image_cong) (auto simp: Al_def score_snoc_GapT)
  show ?thesis
    unfolding reach_def[of "xs @ [a]" "ys @ [b]"] Al_snoc image_Un 1 2 3 ..
qed

lemma only_GapS: "proj1 al = [] \<Longrightarrow> \<forall>x \<in> set al. \<exists>b. x = GapS b"
  by (induction al rule: proj1.induct) auto

lemma only_GapT: "proj2 al = [] \<Longrightarrow> \<forall>x \<in> set al. \<exists>a. x = GapT a"
  by (induction al rule: proj2.induct) auto

lemma run_of_one_kind:
  assumes "al \<noteq> []" "\<forall>x \<in> set al. is_gap x \<and> \<not> is_match x \<and> same_kind (hd al) x"
  shows "lead_once_score al = vmg 0 1"
proof -
  obtain c rest where al: "al = c # rest" using assms(1) by (cases al) auto
  have "\<forall>x \<in> set rest. same_kind c x"
    using assms(2) al by simp
  then have tw: "length (takeWhile (same_kind c) rest) = length rest"
    by (simp add: takeWhile_eq_all_conv[THEN iffD2])
  have "filter is_gap al = al" "filter is_match al = []"
    using assms(2) by (simp_all add: filter_empty_conv)
  then have "n_gaps al = 1 + int (length rest)" "n_matches al = 0"
    by (simp_all add: n_gaps_def n_matches_def al)
  moreover have "leading_run al = Suc (length rest)"
    using assms(2) by (simp add: leading_run_def al tw)
  ultimately show ?thesis
    by (simp add: lead_once_score_def lead_once_gaps_def)
qed

lemma score_only_GapS:
  assumes "proj1 al = []" "al \<noteq> []"
  shows "lead_once_score al = vmg 0 1"
proof (rule run_of_one_kind[OF assms(2)])
  have h: "\<exists>b. hd al = GapS b" using only_GapS[OF assms(1)] assms(2) by (cases al) auto
  show "\<forall>x \<in> set al. is_gap x \<and> \<not> is_match x \<and> same_kind (hd al) x"
    using only_GapS[OF assms(1)] h by auto
qed

lemma score_only_GapT:
  assumes "proj2 al = []" "al \<noteq> []"
  shows "lead_once_score al = vmg 0 1"
proof (rule run_of_one_kind[OF assms(2)])
  have h: "\<exists>a. hd al = GapT a" using only_GapT[OF assms(1)] assms(2) by (cases al) auto
  show "\<forall>x \<in> set al. is_gap x \<and> \<not> is_match x \<and> same_kind (hd al) x"
    using only_GapT[OF assms(1)] h by auto
qed

lemma Al_nonempty: "Al xs ys \<noteq> {}"
proof -
  have "alignments xs ys \<noteq> []"
    by (induction xs ys rule: alignments.induct) auto
  then show ?thesis
    by (simp add: set_alignments[symmetric])
qed

lemma reach_Nil_Nil: "reach [] [] = {vmg 0 0}"
  by (simp add: reach_def Al_Nil_Nil lead_once_score_def lead_once_gaps_def n_gaps_def
      n_matches_def leading_run_def)

lemma reach_Nil_left: "ys \<noteq> [] \<Longrightarrow> reach [] ys = {vmg 0 1}"
proof -
  assume ys: "ys \<noteq> []"
  have "lead_once_score al = vmg 0 1" if "al \<in> Al [] ys" for al
  proof -
    have "proj1 al = []" "al \<noteq> []" using that ys by (auto simp: Al_def)
    then show ?thesis by (rule score_only_GapS)
  qed
  then show ?thesis
    using Al_nonempty[of "[]" ys] by (auto simp: reach_def)
qed

lemma reach_Nil_right: "xs \<noteq> [] \<Longrightarrow> reach xs [] = {vmg 0 1}"
proof -
  assume xs: "xs \<noteq> []"
  have "lead_once_score al = vmg 0 1" if "al \<in> Al xs []" for al
  proof -
    have "proj2 al = []" "al \<noteq> []" using that xs by (auto simp: Al_def)
    then show ?thesis by (rule score_only_GapT)
  qed
  then show ?thesis
    using Al_nonempty[of xs "[]"] by (auto simp: reach_def)
qed

section \<open>The cells hold the Pareto fronts of the alignment scores\<close>

lemma front_single [simp]: "front {p} = {p}"
  by (auto simp: front_def)

lemma reach_gap_right:
  assumes "xs \<noteq> []"
  shows "gap_extension ` reach xs ys \<subseteq> reach xs (ys @ [b])"
proof -
  obtain xs' a where xs: "xs = xs' @ [a]"
    using assms by (meson rev_exhaust)
  show ?thesis
    unfolding xs reach_snoc by blast
qed

lemma reach_gap_down:
  assumes "ys \<noteq> []"
  shows "gap_extension ` reach xs ys \<subseteq> reach (xs @ [a]) ys"
proof -
  obtain ys' b where ys: "ys = ys' @ [b]"
    using assms by (meson rev_exhaust)
  show ?thesis
    unfolding ys reach_snoc by blast
qed

lemma front_gap_merge:
  assumes "finite A" "B \<subseteq> A"
  shows "front (gap_extension ` (front B \<union> front A)) = front (gap_extension ` A)"
proof -
  have "front (gap_extension ` (front B \<union> front A)) = gap_extension ` front (front B \<union> front A)"
    by (rule front_gap_extension)
  also have "front (front B \<union> front A) = front A"
    using assms by (rule front_absorb)
  also have "gap_extension ` front A = front (gap_extension ` A)"
    by (rule front_gap_extension[symmetric])
  finally show ?thesis .
qed

lemma front_three:
  assumes "finite A" "finite B" "finite C"
  shows "front (front A \<union> front B \<union> front C) = front (A \<union> B \<union> C)"
proof -
  have "front (front A \<union> front B \<union> front C) = front (front A \<union> (front B \<union> front C))"
    by (simp add: Un_assoc)
  also have "\<dots> = front (A \<union> (front B \<union> front C))"
    using assms(1) by (rule front_union_left)
  also have "A \<union> (front B \<union> front C) = front B \<union> (A \<union> front C)"
    by blast
  also have "front (front B \<union> (A \<union> front C)) = front (B \<union> (A \<union> front C))"
    using assms(2) by (rule front_union_left)
  also have "B \<union> (A \<union> front C) = (A \<union> B) \<union> front C"
    by blast
  also have "front ((A \<union> B) \<union> front C) = front ((A \<union> B) \<union> C)"
    using assms(3) by (rule front_union_right)
  finally show ?thesis .
qed

lemma gap_extension_vmg: "gap_extension (vmg m g) = vmg m (g + 1)"
  by (simp add: gap_extension_def vmg_def)

lemma cell_sets:
  "i \<le> length s1 \<longrightarrow> j \<le> length s2 \<longrightarrow>
     set (Q_cell s1 s2 i j) = front (reach (take i s1) (take j s2))"
  "0 < i \<longrightarrow> i \<le> length s1 \<longrightarrow> 0 < j \<longrightarrow> j \<le> length s2 \<longrightarrow>
     set (S_cell s1 s2 i j) = front (gap_extension ` reach (take i s1) (take (j - 1) s2))"
  "0 < i \<longrightarrow> i \<le> length s1 \<longrightarrow> 0 < j \<longrightarrow> j \<le> length s2 \<longrightarrow>
     set (T_cell s1 s2 i j) = front (gap_extension ` reach (take (i - 1) s1) (take j s2))"
proof (induction s1 s2 i j and s1 s2 i j and s1 s2 i j rule: Q_cell_S_cell_T_cell.induct)
  case (1 s1 s2)
  show ?case by (simp add: reach_Nil_Nil)
next
  case (2 s1 s2 j)
  show ?case
  proof (intro impI)
    assume "Suc j \<le> length s2"
    then have "take (Suc j) s2 \<noteq> []" by auto
    then show "set (Q_cell s1 s2 0 (Suc j)) = front (reach (take 0 s1) (take (Suc j) s2))"
      by (simp add: reach_Nil_left del: take_Suc)
  qed
next
  case (3 s1 s2 i)
  show ?case
  proof (intro impI)
    assume "Suc i \<le> length s1"
    then have "take (Suc i) s1 \<noteq> []" by auto
    then show "set (Q_cell s1 s2 (Suc i) 0) = front (reach (take (Suc i) s1) (take 0 s2))"
      by (simp add: reach_Nil_right del: take_Suc)
  qed
next
  case (4 s1 s2 i j)
  show ?case
  proof (intro impI)
    assume i: "Suc i \<le> length s1" and j: "Suc j \<le> length s2"
    let ?xs = "take i s1" and ?ys = "take j s2"
    have tx: "take (Suc i) s1 = ?xs @ [s1 ! i]" and ty: "take (Suc j) s2 = ?ys @ [s2 ! j]"
      using i j by (simp_all add: take_Suc_conv_app_nth)
    have s: "set (S_cell s1 s2 (Suc i) (Suc j)) = front (gap_extension ` reach (?xs @ [s1 ! i]) ?ys)"
      using 4(1) i j by (simp add: tx del: S_cell.simps take_Suc)
    have t: "set (T_cell s1 s2 (Suc i) (Suc j)) = front (gap_extension ` reach ?xs (?ys @ [s2 ! j]))"
      using 4(2) i j by (simp add: ty del: T_cell.simps take_Suc)
    have q: "set (Q_cell s1 s2 i j) = front (reach ?xs ?ys)"
      using 4(3) i j by simp
    have "set (Q_cell s1 s2 (Suc i) (Suc j)) =
            front (front (gap_extension ` reach (?xs @ [s1 ! i]) ?ys) \<union>
                   front (gap_extension ` reach ?xs (?ys @ [s2 ! j])) \<union>
                   front (diagonal_extension (s1 ! i = s2 ! j) ` reach ?xs ?ys))"
      by (simp only: Q_cell.simps set_merge3_front s t q front_diagonal_extension)
    also have "\<dots> = front (gap_extension ` reach (?xs @ [s1 ! i]) ?ys \<union>
                   gap_extension ` reach ?xs (?ys @ [s2 ! j]) \<union>
                   diagonal_extension (s1 ! i = s2 ! j) ` reach ?xs ?ys)"
      by (rule front_three) (simp_all add: finite_reach)
    also have "\<dots> = front (reach (?xs @ [s1 ! i]) (?ys @ [s2 ! j]))"
      by (simp add: reach_snoc Un_ac)
    finally show "set (Q_cell s1 s2 (Suc i) (Suc j)) = front (reach (take (Suc i) s1) (take (Suc j) s2))"
      by (simp only: tx ty)
  qed
next
  case (5 s1 s2 i)
  show ?case by simp
next
  case (6 s1 s2 i j)
  show ?case
  proof (intro impI)
    assume i0: "0 < i" and i: "i \<le> length s1" and j: "Suc j \<le> length s2"
    obtain i' where i': "i = Suc i'" using i0 by (cases i) auto
    have xs: "take i s1 \<noteq> []" using i i' by auto
    show "set (S_cell s1 s2 i (Suc j)) = front (gap_extension ` reach (take i s1) (take (Suc j - 1) s2))"
    proof (cases j)
      case 0
      have "reach (take i s1) [] = {vmg 0 1}"
        using xs by (rule reach_Nil_right)
      then show ?thesis
        using 0 by (simp add: i' merge2_sentinel gap_extension_vmg del: take_Suc)
    next
      case (Suc j')
      let ?A = "reach (take i s1) (take j s2)"
      let ?B = "gap_extension ` reach (take i s1) (take j' s2)"
      have ty: "take j s2 = take j' s2 @ [s2 ! j']"
        using j Suc by (simp add: take_Suc_conv_app_nth)
      have sub: "?B \<subseteq> ?A"
        unfolding ty using xs by (rule reach_gap_right)
      have s: "set (S_cell s1 s2 i j) = front ?B"
        using 6(1) i0 i j Suc by (simp del: S_cell.simps take_Suc)
      have q: "set (Q_cell s1 s2 i j) = front ?A"
        using 6(2) i j by (simp del: Q_cell.simps take_Suc)
      have "set (S_cell s1 s2 i (Suc j)) = front (gap_extension ` (front ?B \<union> front ?A))"
        by (simp only: S_cell.simps set_merge2_front s q)
      also have "\<dots> = front (gap_extension ` ?A)"
        by (rule front_gap_merge[OF finite_reach sub])
      finally show ?thesis by simp
    qed
  qed
next
  case (7 s1 s2 j)
  show ?case by simp
next
  case (8 s1 s2 i j)
  show ?case
  proof (intro impI)
    assume i: "Suc i \<le> length s1" and j0: "0 < j" and j: "j \<le> length s2"
    obtain j' where j': "j = Suc j'" using j0 by (cases j) auto
    have ys: "take j s2 \<noteq> []" using j j' by auto
    show "set (T_cell s1 s2 (Suc i) j) = front (gap_extension ` reach (take (Suc i - 1) s1) (take j s2))"
    proof (cases i)
      case 0
      have "reach [] (take j s2) = {vmg 0 1}"
        using ys by (rule reach_Nil_left)
      then show ?thesis
        using 0 by (simp add: j' merge2_sentinel gap_extension_vmg del: take_Suc)
    next
      case (Suc i')
      let ?A = "reach (take i s1) (take j s2)"
      let ?B = "gap_extension ` reach (take i' s1) (take j s2)"
      have tx: "take i s1 = take i' s1 @ [s1 ! i']"
        using i Suc by (simp add: take_Suc_conv_app_nth)
      have sub: "?B \<subseteq> ?A"
        unfolding tx using ys by (rule reach_gap_down)
      have t: "set (T_cell s1 s2 i j) = front ?B"
        using 8(1) i j0 j Suc by (simp del: T_cell.simps take_Suc)
      have q: "set (Q_cell s1 s2 i j) = front ?A"
        using 8(2) i j by (simp del: Q_cell.simps take_Suc)
      have "set (T_cell s1 s2 (Suc i) j) = front (gap_extension ` (front ?B \<union> front ?A))"
        by (simp only: T_cell.simps set_merge2_front t q)
      also have "\<dots> = front (gap_extension ` ?A)"
        by (rule front_gap_merge[OF finite_reach sub])
      finally show ?thesis by simp
    qed
  qed
qed

lemma set_final_frontier: "set (final_frontier s1 s2) = front (reach s1 s2)"
  using cell_sets(1)[of "length s1" s1 "length s2" s2] by (simp add: final_frontier_eq)

section \<open>Claims\<close>

text \<open>
  C1, as the program computes it. For every pair of input sequences (of any lengths, so
  also for \<open>M, N \<le> 6\<close>), the set of points printed from \<open>Q[M mod 2][N]\<close> equals the
  Pareto frontier obtained by enumerating all global alignments of the two sequences and
  dominance-filtering their vectors of matches and gaps, where the run of gap columns of
  one kind that an alignment starts with counts as one gap.
\<close>

theorem final_frontier_is_lead_once_front:
  "set (final_frontier seq1 seq2) = set (brute_force_lead_once seq1 seq2)"
  by (simp add: set_final_frontier brute_force_lead_once_def set_pareto_filter reach_def
      set_alignments)

text \<open>
  C1, as the specification states it, fails: with the number of gap symbols as the second
  objective, the printed frontier differs from the brute-force frontier for the sequences
  \<open>XXXA\<close> and \<open>A\<close>, and for the empty sequence and \<open>AA\<close>.
\<close>

theorem final_frontier_not_brute_force:
  "length ''XXXA'' \<le> 6 \<and> length ''A'' \<le> 6 \<and>
   set (final_frontier ''XXXA'' ''A'') \<noteq> set (brute_force ''XXXA'' ''A'') \<and>
   length ''AA'' \<le> 6 \<and>
   set (final_frontier [] ''AA'') \<noteq> set (brute_force [] ''AA'')"
  by code_simp

text \<open>
  C2, as the program has it. For every row \<open>i = 1..M\<close>, after the seeding call
  \<^verbatim>\<open>append_node(&Q[curr][0], 0, 1)\<close> the column-0 cell of the current line of \<open>Q\<close> holds
  exactly the single point \<open>(0, 1)\<close>, whatever the row index; and for a first sequence of
  length 3 and an empty second sequence the printed frontier is exactly \<open>(0, 1)\<close>.
\<close>

theorem column0_seed_is_one_gap:
  assumes "1 \<le> i" "i \<le> length seq1"
  shows "Q (state_at seq1 seq2 i 0) ! curr_line i ! 0 = [vmg 0 1] \<and>
         (length seq1 = 3 \<and> length seq2 = 0 \<longrightarrow> final_frontier seq1 seq2 = [vmg 0 1])"
proof -
  obtain i' where i: "i = Suc i'"
    using assms(1) by (metis One_nat_def Suc_le_D)
  have "row_partial seq1 seq2 (length seq2) (Suc i') 0 (state_at seq1 seq2 (Suc i') 0)"
    unfolding state_at_def using row_partial_state[of 0 "length seq2" seq1 seq2 i'] by simp
  then have "Q (state_at seq1 seq2 i 0) ! curr_line i ! 0 = [vmg 0 1]"
    by (simp add: row_partial_def i)
  moreover have "length seq1 = 3 \<and> length seq2 = 0 \<longrightarrow> final_frontier seq1 seq2 = [vmg 0 1]"
    by (simp add: final_frontier_eq numeral_3_eq_3)
  ultimately show ?thesis by simp
qed

theorem column0_seed_is_one_gap_witness:
  "(1::nat) \<le> 2 \<and> 2 \<le> length ''AAA'' \<and>
   Q (state_at ''AAA'' [] 2 0) ! curr_line 2 ! 0 = [vmg 0 1] \<and>
   length ''AAA'' = 3 \<and> length ([] :: string) = 0 \<and> final_frontier ''AAA'' [] = [vmg 0 1]"
  using column0_seed_is_one_gap[of 2 "''AAA''" "[]"] by simp

text \<open>
  C2, as the specification states it, fails: with the sequence \<open>AAA\<close> against the empty
  sequence, neither the column-0 cell of row 3 nor the printed frontier is \<open>(0, 3)\<close>.
\<close>

theorem column0_not_row_index:
  "Q (state_at ''AAA'' [] 3 0) ! curr_line 3 ! 0 \<noteq> [vmg 0 3] \<and>
   final_frontier ''AAA'' [] \<noteq> [vmg 0 3]"
  by code_simp

text \<open>
  C3, as the program has it. After \<^verbatim>\<open>init_dynamic_tables\<close>, for every column
  \<open>j = 1..N\<close> the cell \<open>Q[0][j]\<close> holds exactly the single point \<open>(0, 1)\<close>: zero matches and
  one gap, whatever the column index.
\<close>

theorem row0_base_is_one_gap:
  "1 \<le> j \<Longrightarrow> j \<le> N \<Longrightarrow> Q (init_dynamic_tables N) ! 0 ! j = [vmg 0 1]"
  using row_done_init[of "[]" "[]" N] by (cases j) (simp_all add: row_done_def)

theorem row0_base_is_one_gap_witness:
  "(1::nat) \<le> 2 \<and> (2::nat) \<le> 2 \<and> Q (init_dynamic_tables 2) ! 0 ! 2 = [vmg 0 1]"
  using row0_base_is_one_gap[of 2 2] by simp

text \<open>
  C3, as the specification states it, fails: for \<open>N = 2\<close> the cell \<open>Q[0][2]\<close> is not
  the single point \<open>(0, 2)\<close>.
\<close>

theorem row0_not_column_index: "Q (init_dynamic_tables 2) ! 0 ! 2 \<noteq> [vmg 0 2]"
  by code_simp

text \<open>
  C4, as the program has it. For sequences that fit the buffers of \<open>MAX_LENGTH\<close>
  characters, no point derived from the sentinel is printed: every printed point has a gap
  count between 0 and \<open>M + N\<close>, hence below \<open>INT_MAX\<close>, and it belongs to a real global
  alignment of the two sequences: it has that alignment's number of matches, and its gap
  count is that alignment's number of gap symbols with the leading run of gap columns of
  one kind counted once, so at most the alignment's number of gap symbols.
\<close>

theorem final_frontier_has_no_sentinel:
  assumes "length seq1 < MAX_LENGTH" "length seq2 < MAX_LENGTH"
    and "p \<in> set (final_frontier seq1 seq2)"
  shows "0 \<le> gaps p \<and> gaps p \<le> int (length seq1 + length seq2) \<and> gaps p < INT_MAX \<and>
         (\<exists>al \<in> set (alignments seq1 seq2).
            p = lead_once_score al \<and> matches p = n_matches al \<and> gaps p \<le> n_gaps al)"
proof -
  have "in_bounds (length seq1) (length seq2) p"
    using assms(3) cell_bounds(1)[of seq1 seq2 "length seq1" "length seq2"]
    by (simp add: final_frontier_eq)
  then have b: "0 \<le> gaps p" "gaps p \<le> int (length seq1 + length seq2)"
    by (simp_all add: in_bounds_def)
  then have "gaps p < INT_MAX"
    using assms(1,2) by (simp add: MAX_LENGTH_def INT_MAX_def)
  moreover have "p \<in> reach seq1 seq2"
    using assms(3) front_subset[of "reach seq1 seq2"] by (auto simp: set_final_frontier)
  then obtain al where al: "al \<in> set (alignments seq1 seq2)" "p = lead_once_score al"
    by (auto simp: reach_def set_alignments)
  have "matches p = n_matches al" "gaps p \<le> n_gaps al"
    by (simp_all add: al(2) lead_once_score_def lead_once_gaps_def vmg_def)
  then have "\<exists>al \<in> set (alignments seq1 seq2).
            p = lead_once_score al \<and> matches p = n_matches al \<and> gaps p \<le> n_gaps al"
    using al by blast
  ultimately show ?thesis
    using b by simp
qed

theorem final_frontier_has_no_sentinel_witness:
  "length ''AB'' < MAX_LENGTH \<and> length ''BA'' < MAX_LENGTH \<and>
   vmg 1 2 \<in> set (final_frontier ''AB'' ''BA'') \<and>
   0 \<le> gaps (vmg 1 2) \<and> gaps (vmg 1 2) \<le> int (length ''AB'' + length ''BA'') \<and>
   gaps (vmg 1 2) < INT_MAX \<and>
   (\<exists>al \<in> set (alignments ''AB'' ''BA'').
      vmg 1 2 = lead_once_score al \<and> matches (vmg 1 2) = n_matches al \<and>
      gaps (vmg 1 2) \<le> n_gaps al)"
proof -
  have m: "vmg 1 2 \<in> set (final_frontier ''AB'' ''BA'')"
    by code_simp
  have l: "length ''AB'' < MAX_LENGTH" "length ''BA'' < MAX_LENGTH"
    by (simp_all add: MAX_LENGTH_def)
  from final_frontier_has_no_sentinel[OF l m] l m show ?thesis
    by blast
qed

text \<open>
  C4, as the specification states it, fails: for the empty sequence against \<open>AA\<close> the
  program prints the pair \<open>(0, 1)\<close>, and no global alignment of the two sequences has
  that pair of matches and gap symbols (the only alignment has two gap symbols).
\<close>

theorem printed_pair_is_no_alignment_score:
  "length ([] :: string) < MAX_LENGTH \<and> length ''AA'' < MAX_LENGTH \<and>
   vmg 0 1 \<in> set (final_frontier [] ''AA'') \<and>
   vmg 0 1 \<notin> set (map score (alignments [] ''AA''))"
  by code_simp

text \<open>
  C5. For every row \<open>i = 1..M\<close> and column \<open>j = 1..N\<close>, right after the three merge calls
  for cell \<open>(i, j)\<close> the cells \<open>S[j]\<close>, \<open>T[curr][j]\<close> and \<open>Q[curr][j]\<close> contain no two distinct
  points of which one dominates the other.
\<close>

theorem merged_cells_nondominated:
  assumes "1 \<le> i" "i \<le> length seq1" "1 \<le> j" "j \<le> length seq2"
  shows "nondominated (S (state_at seq1 seq2 i j) ! j) \<and>
         nondominated (T (state_at seq1 seq2 i j) ! curr_line i ! j) \<and>
         nondominated (Q (state_at seq1 seq2 i j) ! curr_line i ! j)"
proof -
  obtain i' j' where ij: "i = Suc i'" "j = Suc j'"
    using assms(1,3) by (metis One_nat_def Suc_le_D)
  have j': "j' < length seq2" using assms(4) ij by simp
  show ?thesis
    unfolding ij
    using cells_after_step[OF j', of seq1 i']
    by (simp add: nondominated_merge2 nondominated_merge3)
qed

theorem merged_cells_nondominated_witness:
  "(1::nat) \<le> 2 \<and> 2 \<le> length ''AB'' \<and> (1::nat) \<le> 2 \<and> 2 \<le> length ''BA'' \<and>
   nondominated (S (state_at ''AB'' ''BA'' 2 2) ! 2) \<and>
   nondominated (T (state_at ''AB'' ''BA'' 2 2) ! curr_line 2 ! 2) \<and>
   nondominated (Q (state_at ''AB'' ''BA'' 2 2) ! curr_line 2 ! 2)"
  using merged_cells_nondominated[of 2 "''AB''" 2 "''BA''"] by simp

text \<open>
  C6. For two sequences of one character each, the two characters different (such as
  \<open>A\<close> and \<open>C\<close>), the printed frontier is exactly the single point \<open>(0, 0)\<close>.
\<close>

theorem single_mismatch_frontier: "a \<noteq> c \<Longrightarrow> final_frontier [a] [c] = [vmg 0 0]"
  by (simp add: final_frontier_eq merge2_sentinel)
   (simp add: pareto_merge3_def insert_all_def insert_point_def dominates_def
      diagonal_extension_def vmg_def)

theorem single_mismatch_frontier_witness:
  "CHR ''A'' \<noteq> CHR ''C'' \<and> final_frontier ''A'' ''C'' = [vmg 0 0]"
  using single_mismatch_frontier[of "CHR ''A''" "CHR ''C''"] by simp

text \<open>
  C7. For every row \<open>i \<le> M\<close> and column \<open>j \<le> N\<close>, every point \<open>(m, g)\<close> stored in cell
  \<open>(i, j)\<close> of \<open>Q\<close> (line \<open>i mod 2\<close> once row \<open>i\<close> is complete; row 0 is the initialised
  table) satisfies \<open>0 \<le> m \<le> min i j\<close> and \<open>0 \<le> g \<le> i + j\<close>.
\<close>

theorem Q_points_in_bounds:
  assumes "i \<le> length seq1" "j \<le> length seq2"
    and "p \<in> set (Q (align seq1 seq2 i (length seq2) (init_dynamic_tables (length seq2))) ! (i mod 2) ! j)"
  shows "0 \<le> matches p \<and> matches p \<le> int (min i j) \<and> 0 \<le> gaps p \<and> gaps p \<le> int (i + j)"
  using assms(3) cell_bounds(1)[of seq1 seq2 i j]
  by (simp add: Q_after_rows[OF assms(2)] in_bounds_def)

theorem Q_points_in_bounds_witness:
  "2 \<le> length ''AB'' \<and> 2 \<le> length ''BA'' \<and>
   vmg 1 2 \<in> set (Q (align ''AB'' ''BA'' 2 (length ''BA'') (init_dynamic_tables (length ''BA''))) ! (2 mod 2) ! 2) \<and>
   0 \<le> matches (vmg 1 2) \<and> matches (vmg 1 2) \<le> int (min 2 2) \<and>
   0 \<le> gaps (vmg 1 2) \<and> gaps (vmg 1 2) \<le> int (2 + 2)"
proof -
  have m: "vmg 1 2 \<in> set (Q (align ''AB'' ''BA'' 2 (length ''BA'') (init_dynamic_tables (length ''BA''))) ! (2 mod 2) ! 2)"
    by code_simp
  have "2 \<le> length ''AB''" "2 \<le> length ''BA''"
    by simp_all
  from Q_points_in_bounds[OF this m] m show ?thesis
    by simp
qed

text \<open>
  C8. With an argument count other than 3 the program prints the usage line and returns 0.
  With two arguments, when the first file cannot be opened, or does not start with a
  FASTA header, the program writes the error message and exits with \<open>-1\<close>, and nothing
  else is printed; the same holds for the second file once the first has been read.
\<close>

theorem main_usage_and_read_errors:
  "(length args \<noteq> 2 \<longrightarrow>
      main prog args fs = Exit 0 [''Usage: '' @ prog @ '' <seq1_file> <seq2_file>''] []) \<and>
   (length args = 2 \<and> fs (args ! 0) = Inl reason \<longrightarrow>
      main prog args fs = Exit (- 1) [] [''Failed to open sequence file: '' @ reason]) \<and>
   (length args = 2 \<and> fs (args ! 0) = Inr contents \<and> scan_header contents = None \<longrightarrow>
      main prog args fs = Exit (- 1) [''Sequence file format is not correct!''] []) \<and>
   (length args = 2 \<and> read_sequence [] (args ! 0) fs = Inr first_seq \<and> fs (args ! 1) = Inl reason' \<longrightarrow>
      main prog args fs = Exit (- 1) [] [''Failed to open sequence file: '' @ reason']) \<and>
   (length args = 2 \<and> read_sequence [] (args ! 0) fs = Inr first_seq \<and>
    fs (args ! 1) = Inr contents' \<and> scan_header contents' = None \<longrightarrow>
      main prog args fs = Exit (- 1) [''Sequence file format is not correct!''] [])"
  by (simp add: main_def read_sequence_def report_def)

theorem main_usage_and_read_errors_witness:
  "main ''mosal'' [''a.fa''] (\<lambda>f. Inl ''No such file'') =
     Exit 0 [''Usage: mosal <seq1_file> <seq2_file>''] [] \<and>
   main ''mosal'' [''a.fa'', ''b.fa''] (\<lambda>f. Inl ''No such file'') =
     Exit (- 1) [] [''Failed to open sequence file: No such file''] \<and>
   main ''mosal'' [''a.fa'', ''b.fa''] (\<lambda>f. Inr ''ACGT'') =
     Exit (- 1) [''Sequence file format is not correct!''] [] \<and>
   main ''mosal'' [''a.fa'', ''b.fa''] (\<lambda>f. if f = ''a.fa'' then Inr ''>s'' else Inl ''No such file'') =
     Exit (- 1) [] [''Failed to open sequence file: No such file''] \<and>
   main ''mosal'' [''a.fa'', ''b.fa''] (\<lambda>f. if f = ''a.fa'' then Inr ''>s'' else Inr ''ACGT'') =
     Exit (- 1) [''Sequence file format is not correct!''] []"
proof -
  have r: "read_sequence [] ''a.fa'' (\<lambda>f. if f = ''a.fa'' then Inr ''>s'' else e) = Inr []" for e
    by (simp add: read_sequence_def scan_header_def)
  have h: "scan_header ''ACGT'' = None"
    by (simp add: scan_header_def)
  show ?thesis
    using main_usage_and_read_errors[where args = "[''a.fa'']" and prog = "''mosal''"
        and fs = "\<lambda>f. Inl ''No such file''"]
      main_usage_and_read_errors[where args = "[''a.fa'', ''b.fa'']" and prog = "''mosal''"
        and fs = "\<lambda>f. Inl ''No such file''" and reason = "''No such file''"]
      main_usage_and_read_errors[where args = "[''a.fa'', ''b.fa'']" and prog = "''mosal''"
        and fs = "\<lambda>f. Inr ''ACGT''" and contents = "''ACGT''"]
      main_usage_and_read_errors[where args = "[''a.fa'', ''b.fa'']" and prog = "''mosal''"
        and fs = "\<lambda>f. if f = ''a.fa'' then Inr ''>s'' else Inl ''No such file''"
        and first_seq = "[]" and reason' = "''No such file''"]
      main_usage_and_read_errors[where args = "[''a.fa'', ''b.fa'']" and prog = "''mosal''"
        and fs = "\<lambda>f. if f = ''a.fa'' then Inr ''>s'' else Inr ''ACGT''"
        and first_seq = "[]" and contents' = "''ACGT''"]
    by (simp add: r h)
qed

text \<open>
  C9. When both files hold a header and no sequence data, both sequences are empty: the
  outer loop of \<^verbatim>\<open>align\<close> does nothing, the final cell is the point \<open>(0, 0)\<close> seeded by
  \<^verbatim>\<open>init_dynamic_tables\<close>, and the program prints the one line \<open>0 0\<close> and returns 0.
\<close>

theorem empty_sequences_print_0_0:
  assumes "read_sequence [] f1 fs = Inr []" "read_sequence [] f2 fs = Inr []"
  shows "main prog [f1, f2] fs = Exit 0 [''0 0''] [] \<and>
         align [] [] (length ([] :: string)) (length ([] :: string)) st = st \<and>
         final_frontier [] [] = [vmg 0 0]"
proof -
  have f: "final_frontier [] [] = [vmg 0 0]"
    by (simp add: final_frontier_eq)
  have "print_line (vmg 0 0) = ''0 0''"
    by (simp add: print_line_def show_int_def vmg_def digit_def)
  then show ?thesis
    using assms f by (simp add: main_def)
qed

theorem empty_sequences_print_0_0_witness:
  "read_sequence [] ''a.fa'' (\<lambda>f. Inr ''>empty'') = Inr [] \<and>
   read_sequence [] ''b.fa'' (\<lambda>f. Inr ''>empty'') = Inr [] \<and>
   main ''mosal'' [''a.fa'', ''b.fa''] (\<lambda>f. Inr ''>empty'') = Exit 0 [''0 0''] []"
proof -
  have a: "read_sequence [] ''a.fa'' (\<lambda>f. Inr ''>empty'') = Inr []"
    by (simp add: read_sequence_def scan_header_def)
  have b: "read_sequence [] ''b.fa'' (\<lambda>f. Inr ''>empty'') = Inr []"
    by (simp add: read_sequence_def scan_header_def)
  show ?thesis using a b empty_sequences_print_0_0[OF a b] by simp
qed

text \<open>
  C10. The loop that resets \<open>S\<close> at the end of a row clears \<open>S[1..N]\<close> and leaves \<open>S[0]\<close>
  as it is, and so does a whole iteration of the outer loop, from any well-shaped state.
  Hence in every row \<open>i = 1..M\<close>, after any number of columns and after the end-of-row
  reset, \<open>S[0]\<close> still holds the point \<open>(0, INT_MAX)\<close> seeded by
  \<^verbatim>\<open>init_dynamic_tables\<close>, and the row's \<open>S[1]\<close> is the gap-extension merge of that
  \<open>S[0]\<close> with the row's column-0 cell of \<open>Q\<close>.
\<close>

theorem S0_keeps_sentinel:
  assumes "1 \<le> i" "i \<le> length seq1" "j \<le> length seq2" "shape (length seq2) st"
  shows "S (fold reset_S [1..<length seq2 + 1] st) ! 0 = S st ! 0 \<and>
         (\<forall>k. 1 \<le> k \<and> k \<le> length seq2 \<longrightarrow> S (fold reset_S [1..<length seq2 + 1] st) ! k = []) \<and>
         S (align_row seq1 seq2 (length seq2) i st) ! 0 = S st ! 0 \<and>
         S (state_at seq1 seq2 i j) ! 0 = [vmg 0 INT_MAX] \<and>
         S (align seq1 seq2 i (length seq2) (init_dynamic_tables (length seq2))) ! 0 = [vmg 0 INT_MAX] \<and>
         (1 \<le> length seq2 \<longrightarrow>
            S (state_at seq1 seq2 i 1) ! 1 =
              pareto_merge2 [] (S (state_at seq1 seq2 i 0) ! 0) (Q (state_at seq1 seq2 i 0) ! curr_line i ! 0) \<and>
            S (state_at seq1 seq2 i 0) ! 0 = [vmg 0 INT_MAX])"
proof -
  let ?N = "length seq2"
  obtain i' where i: "i = Suc i'"
    using assms(1) by (metis One_nat_def Suc_le_D)
  have r: "\<And>k. S (fold reset_S [1..<Suc ?N] st) ! k = (if 1 \<le> k \<and> k < Suc ?N then [] else S st ! k)"
    using fold_reset_S[OF assms(4), of "Suc ?N"] by blast
  have a: "S (fold reset_S [1..<?N + 1] st) ! 0 = S st ! 0"
    unfolding Suc_eq_plus1[symmetric] by (simp only: r) simp
  have b: "\<forall>k. 1 \<le> k \<and> k \<le> ?N \<longrightarrow> S (fold reset_S [1..<?N + 1] st) ! k = []"
    unfolding Suc_eq_plus1[symmetric] by (simp only: r) simp
  have c: "S (align_row seq1 seq2 ?N i st) ! 0 = S st ! 0"
    by (rule S0_align_row[OF assms(4)])
  have p: "row_partial seq1 seq2 ?N (Suc i') k (state_at seq1 seq2 (Suc i') k)" if "k \<le> ?N" for k
    unfolding state_at_def using row_partial_state[OF that, of seq1 seq2 i'] by simp
  have d: "S (state_at seq1 seq2 i j) ! 0 = [vmg 0 INT_MAX]"
    using p[OF assms(3)] by (simp add: row_partial_def i)
  have e: "S (align seq1 seq2 i ?N (init_dynamic_tables ?N)) ! 0 = [vmg 0 INT_MAX]"
    using row_done_align[of seq1 seq2 ?N i] by (simp add: row_done_def)
  have f: "S (state_at seq1 seq2 i 1) ! 1 =
              pareto_merge2 [] (S (state_at seq1 seq2 i 0) ! 0) (Q (state_at seq1 seq2 i 0) ! curr_line i ! 0) \<and>
           S (state_at seq1 seq2 i 0) ! 0 = [vmg 0 INT_MAX]" if n: "1 \<le> ?N"
  proof -
    have "S (state_at seq1 seq2 i 1) ! 1 = S_cell seq1 seq2 (Suc i') (Suc 0)"
      using p[of 1] n by (simp add: row_partial_def i del: S_cell.simps)
    moreover have "S (state_at seq1 seq2 i 0) ! 0 = [vmg 0 INT_MAX]"
      using p[of 0] by (simp add: row_partial_def i)
    moreover have "Q (state_at seq1 seq2 i 0) ! curr_line i ! 0 = Q_cell seq1 seq2 (Suc i') 0"
      using p[of 0] by (simp add: row_partial_def i del: Q_cell.simps)
    ultimately show ?thesis by simp
  qed
  show ?thesis
    using a b c d e f by blast
qed

theorem S0_keeps_sentinel_witness:
  "(1::nat) \<le> 2 \<and> 2 \<le> length ''AB'' \<and> 1 \<le> length ''BA'' \<and> shape (length ''BA'') (init_dynamic_tables (length ''BA'')) \<and>
   S (align_row ''AB'' ''BA'' (length ''BA'') 2 (init_dynamic_tables (length ''BA''))) ! 0 = S (init_dynamic_tables (length ''BA'')) ! 0 \<and>
   S (state_at ''AB'' ''BA'' 2 1) ! 0 = [vmg 0 INT_MAX] \<and>
   S (align ''AB'' ''BA'' 2 (length ''BA'') (init_dynamic_tables (length ''BA''))) ! 0 = [vmg 0 INT_MAX] \<and>
   S (state_at ''AB'' ''BA'' 2 1) ! 1 = pareto_merge2 [] [vmg 0 INT_MAX] (Q (state_at ''AB'' ''BA'' 2 0) ! curr_line 2 ! 0)"
proof -
  have sh: "shape (length ''BA'') (init_dynamic_tables (length ''BA''))"
    by (rule shape_init)
  have "(1::nat) \<le> 2" "2 \<le> length ''AB''" "1 \<le> length ''BA''"
    by simp_all
  from S0_keeps_sentinel[OF this sh] sh show ?thesis
    by simp
qed

end
